theory Spec2Isabelle
  imports Complex_Main
begin

text \<open>
  A shallow embedding of the game core of the bubble shooter: the hex adjacency rule, the
  line-of-sight check, grid initialisation, match resolution and the nearest-empty-cell
  snap of \<open>GeminiSlingshot\<close>, and the validation and local fallback of the advisory
  service \<open>getStrategicHint\<close>. Definitions come first, in the order of the source;
  the properties follow.
\<close>

section \<open>Data model (src/App.tsx, types used by the game loop)\<close>

text \<open>
  JavaScript numbers are modelled as \<open>int\<close> where the program only ever stores integers
  (rows, columns, score, loop counters) and as \<open>real\<close> for planar coordinates and
  distances. Rounding of IEEE doubles is not modelled.
\<close>

datatype color = red | blue | green | yellow | purple | orange

text \<open>\<open>COLOR_CONFIG[c].points\<close>\<close>

fun points :: "color \<Rightarrow> int" where
  "points red = 100"
| "points blue = 150"
| "points green = 200"
| "points yellow = 250"
| "points purple = 300"
| "points orange = 500"

definition COLOR_KEYS :: "color list" where
  "COLOR_KEYS = [red, blue, green, yellow, purple, orange]"

record point =
  p_x :: real
  p_y :: real

text \<open>The \<open>Bubble\<close> object; field \<open>f\<close> of the source is \<open>b_f\<close> here.\<close>

record bubble =
  b_id :: string
  b_row :: int
  b_col :: int
  b_x :: real
  b_y :: real
  b_color :: color
  b_active :: bool

definition BUBBLE_RADIUS :: real where
  "BUBBLE_RADIUS = 36"

definition ROW_HEIGHT :: real where
  "ROW_HEIGHT = BUBBLE_RADIUS * sqrt 3"

definition GRID_COLS :: int where
  "GRID_COLS = 16"

definition GRID_ROWS :: int where
  "GRID_ROWS = 6"

text \<open>The remainder operator \<open>%\<close> of JavaScript on integers: the sign follows the dividend.\<close>

definition js_rem :: "int \<Rightarrow> int \<Rightarrow> int" where
  "js_rem a b = sgn a * (\<bar>a\<bar> mod \<bar>b\<bar>)"

section \<open>Hex adjacency: \<open>isNeighbor\<close>\<close>

definition isNeighbor :: "bubble \<Rightarrow> bubble \<Rightarrow> bool" where
  "isNeighbor a b =
     (let dr = b_row b - b_row a;
          dc = b_col b - b_col a
      in if \<bar>dr\<bar> > 1 then False
         else if dr = 0 then \<bar>dc\<bar> = 1
         else if js_rem (b_row a) 2 \<noteq> 0 then dc = 0 \<or> dc = 1
         else dc = -1 \<or> dc = 0)"

section \<open>Line of sight: \<open>isPathClear\<close>\<close>

text \<open>
  The inner \<open>for (const b of bubbles.current)\<close> loop at one sample point \<open>(cx, cy)\<close>:
  \<open>True\<close> when the loop reaches its \<open>return false\<close>.
\<close>

fun sampleBlocked :: "bubble list \<Rightarrow> bubble \<Rightarrow> real \<Rightarrow> real \<Rightarrow> bool" where
  "sampleBlocked [] target cx cy = False"
| "sampleBlocked (b # bs) target cx cy =
     (if \<not> b_active b \<or> b_id b = b_id target then sampleBlocked bs target cx cy
      else if (cx - b_x b)\<^sup>2 + (cy - b_y b)\<^sup>2 < (BUBBLE_RADIUS * 1.8)\<^sup>2 then True
      else sampleBlocked bs target cx cy)"

text \<open>The outer loop \<open>for (let i = 1; i < steps - 2; i++)\<close>, entered with \<open>i = 1\<close>.\<close>

function pathLoop ::
  "bubble list \<Rightarrow> bubble \<Rightarrow> real \<Rightarrow> real \<Rightarrow> real \<Rightarrow> real \<Rightarrow> int \<Rightarrow> int \<Rightarrow> bool" where
  "pathLoop bs target startX startY dx dy steps i =
     (if i < steps - 2 then
        (let t = real_of_int i / real_of_int steps;
             cx = startX + dx * t;
             cy = startY + dy * t
         in if sampleBlocked bs target cx cy then False
            else pathLoop bs target startX startY dx dy steps (i + 1))
      else True)"
  by pat_completeness auto
termination
  by (relation "measure (\<lambda>(bs, target, startX, startY, dx, dy, steps, i). nat (steps - 2 - i))") auto

declare pathLoop.simps [simp del]

text \<open>\<open>steps = Math.ceil(distance / (BUBBLE_RADIUS / 2))\<close>\<close>

definition pathSteps :: "point \<Rightarrow> bubble \<Rightarrow> int" where
  "pathSteps anchor target =
     (let dx = b_x target - p_x anchor;
          dy = b_y target - p_y anchor;
          distance = sqrt (dx * dx + dy * dy)
      in \<lceil>distance / (BUBBLE_RADIUS / 2)\<rceil>)"

text \<open>
  \<open>anchorPos.current\<close> always holds an object, so the guard \<open>if (!anchorPos.current)\<close>
  never fires; the anchor and \<open>bubbles.current\<close> are passed explicitly.
\<close>

definition isPathClear :: "point \<Rightarrow> bubble list \<Rightarrow> bubble \<Rightarrow> bool" where
  "isPathClear anchor bs target =
     (let startX = p_x anchor;
          startY = p_y anchor;
          endX = b_x target;
          endY = b_y target;
          dx = endX - startX;
          dy = endY - startY;
          steps = pathSteps anchor target
      in pathLoop bs target startX startY dx dy steps 1)"


text \<open>The point \<open>(cx, cy)\<close> that iteration \<open>i\<close> of the outer loop computes.\<close>

definition samplePoint :: "point \<Rightarrow> bubble \<Rightarrow> int \<Rightarrow> point" where
  "samplePoint anchor target i =
     (let t = real_of_int i / real_of_int (pathSteps anchor target)
      in \<lparr>p_x = p_x anchor + (b_x target - p_x anchor) * t,
          p_y = p_y anchor + (b_y target - p_y anchor) * t\<rparr>)"

section \<open>Grid geometry and grid initialisation\<close>

definition getBubblePos :: "int \<Rightarrow> int \<Rightarrow> real \<Rightarrow> point" where
  "getBubblePos row col width =
     (let xOffset = (width - (real_of_int GRID_COLS * BUBBLE_RADIUS * 2)) / 2 + BUBBLE_RADIUS;
          isOdd = (js_rem row 2 \<noteq> 0);
          x = xOffset + real_of_int col * (BUBBLE_RADIUS * 2) + (if isOdd then BUBBLE_RADIUS else 0);
          y = BUBBLE_RADIUS + real_of_int row * ROW_HEIGHT
      in \<lparr>p_x = x, p_y = y\<rparr>)"

text \<open>\<open>r % 2 !== 0 ? GRID_COLS - 1 : GRID_COLS\<close>\<close>

definition colsInRow :: "int \<Rightarrow> int" where
  "colsInRow r = (if js_rem r 2 \<noteq> 0 then GRID_COLS - 1 else GRID_COLS)"

text \<open>Decimal rendering of an integer, as a template literal \<open>${n}\<close> produces it.\<close>

definition digit :: "nat \<Rightarrow> char" where
  "digit n = char_of (48 + n)"

fun showNat :: "nat \<Rightarrow> string" where
  "showNat n = (if n < 10 then [digit n] else showNat (n div 10) @ [digit (n mod 10)])"

declare showNat.simps [simp del]

definition showInt :: "int \<Rightarrow> string" where
  "showInt i = (if i < 0 then CHR ''-'' # showNat (nat (- i)) else showNat (nat i))"

text \<open>
  \<open>initGrid\<close>. The two \<open>Math.random()\<close> draws made at cell \<open>(r, c)\<close> are the parameters
  \<open>spawnDraw r c\<close> and \<open>colorDraw r c\<close>.
\<close>

definition initCell :: "(int \<Rightarrow> int \<Rightarrow> real) \<Rightarrow> (int \<Rightarrow> int \<Rightarrow> real) \<Rightarrow> real \<Rightarrow> int \<Rightarrow> int \<Rightarrow> bubble list" where
  "initCell spawnDraw colorDraw width r c =
     (if spawnDraw r c > 0.15 then
        (let pos = getBubblePos r c width
         in [\<lparr>b_id = showInt r @ ''-'' @ showInt c,
              b_row = r,
              b_col = c,
              b_x = p_x pos,
              b_y = p_y pos,
              b_color = COLOR_KEYS ! nat \<lfloor>colorDraw r c * real (length COLOR_KEYS)\<rfloor>,
              b_active = True\<rparr>])
      else [])"

definition initGrid :: "(int \<Rightarrow> int \<Rightarrow> real) \<Rightarrow> (int \<Rightarrow> int \<Rightarrow> real) \<Rightarrow> real \<Rightarrow> bubble list" where
  "initGrid spawnDraw colorDraw width =
     concat (map (\<lambda>r. concat (map (\<lambda>c. initCell spawnDraw colorDraw width r c) [0..colsInRow r - 1]))
                 [0..GRID_ROWS - 1])"

section \<open>Match resolution: \<open>checkMatches\<close>\<close>

text \<open>
  The game state that match resolution reads and writes. \<open>bubbles.current\<close> is a list of
  objects that are mutated in place; a bubble object is addressed by its position in that
  list, so that \<open>toCheck\<close> and \<open>matches\<close> hold positions, and \<open>startBubble\<close> is the position
  of the bubble that the caller has just pushed. \<open>celebrationWord\<close> holds
  \<open>COLOR_CONFIG[c].label\<close>, recorded here by the colour key \<open>c\<close> it belongs to. The particles
  of \<open>createExplosion\<close> are drawing state and are left out.
\<close>

record game =
  bubbles :: "bubble list"
  score :: int
  celebrationWord :: "color option"

text \<open>
  The \<open>while (toCheck.length > 0)\<close> loop. \<open>toCheck\<close> is kept with the end of the array
  first: \<open>pop()\<close> takes the head, \<open>push(...neighbors)\<close> puts the reversed neighbours in
  front.
\<close>

function matchLoop :: "bubble list \<Rightarrow> color \<Rightarrow> nat list \<Rightarrow> string set \<Rightarrow> nat list \<Rightarrow> nat list" where
  "matchLoop bs targetColor [] visited matches = matches"
| "matchLoop bs targetColor (current # toCheck) visited matches =
     (if b_id (bs ! current) \<in> visited then matchLoop bs targetColor toCheck visited matches
      else
        (let visited' = insert (b_id (bs ! current)) visited
         in if b_color (bs ! current) = targetColor then
              (let neighbors = filter (\<lambda>j. b_active (bs ! j) \<and> b_id (bs ! j) \<notin> visited'
                                             \<and> isNeighbor (bs ! current) (bs ! j))
                                      [0..<length bs]
               in matchLoop bs targetColor (rev neighbors @ toCheck) visited' (matches @ [current]))
            else matchLoop bs targetColor toCheck visited' matches))"
  by pat_completeness auto
termination
proof (relation "measures
    [\<lambda>(bs, targetColor, toCheck, visited, matches).
        card ((\<lambda>i. b_id (bs ! i)) ` (set toCheck \<union> {0..<length bs}) - visited),
     \<lambda>(bs, targetColor, toCheck, visited, matches). length toCheck]", goal_cases)
  case 1
  show ?case by simp
next
  case (2 bs targetColor current toCheck visited matches)
  have "card ((\<lambda>i. b_id (bs ! i)) ` (set toCheck \<union> {0..<length bs}) - visited)
        \<le> card ((\<lambda>i. b_id (bs ! i)) ` (set (current # toCheck) \<union> {0..<length bs}) - visited)"
    by (intro card_mono) auto
  then show ?case by auto
next
  case (3 bs targetColor current toCheck visited matches visited' neighbors)
  have "(\<lambda>i. b_id (bs ! i)) ` (set (rev neighbors @ toCheck) \<union> {0..<length bs}) - visited'
        \<subset> (\<lambda>i. b_id (bs ! i)) ` (set (current # toCheck) \<union> {0..<length bs}) - visited"
    using 3 by auto
  then have "card ((\<lambda>i. b_id (bs ! i)) ` (set (rev neighbors @ toCheck) \<union> {0..<length bs}) - visited')
        < card ((\<lambda>i. b_id (bs ! i)) ` (set (current # toCheck) \<union> {0..<length bs}) - visited)"
    by (intro psubset_card_mono) auto
  then show ?case by simp
next
  case (4 bs targetColor current toCheck visited matches visited')
  have "(\<lambda>i. b_id (bs ! i)) ` (set toCheck \<union> {0..<length bs}) - visited'
        \<subset> (\<lambda>i. b_id (bs ! i)) ` (set (current # toCheck) \<union> {0..<length bs}) - visited"
    using 4 by auto
  then have "card ((\<lambda>i. b_id (bs ! i)) ` (set toCheck \<union> {0..<length bs}) - visited')
        < card ((\<lambda>i. b_id (bs ! i)) ` (set (current # toCheck) \<union> {0..<length bs}) - visited)"
    by (intro psubset_card_mono) auto
  then show ?case by simp
qed

text \<open>Match-find: the first half of \<open>checkMatches\<close>, up to the test of \<open>matches.length\<close>.\<close>

definition matchFind :: "bubble list \<Rightarrow> nat \<Rightarrow> nat list" where
  "matchFind bs startBubble = matchLoop bs (b_color (bs ! startBubble)) [startBubble] {} []"

text \<open>One round of \<open>matches.forEach\<close>: the object is deactivated and \<open>points\<close> grows.\<close>

definition popBubble :: "int \<Rightarrow> nat \<Rightarrow> bubble list \<times> int \<Rightarrow> bubble list \<times> int" where
  "popBubble basePoints i acc =
     (case acc of (bs, pts) \<Rightarrow> (bs[i := (bs ! i)\<lparr>b_active := False\<rparr>], pts + basePoints))"

definition checkMatches :: "game \<Rightarrow> nat \<Rightarrow> bool \<times> game" where
  "checkMatches st startBubble =
     (let targetColor = b_color (bubbles st ! startBubble);
          matches = matchFind (bubbles st) startBubble
      in if length matches \<ge> 3 then
           (let basePoints = points targetColor;
                (bs', pts) = fold (popBubble basePoints) matches (bubbles st, 0);
                multiplier = (if length matches > 3 then 1.5 else 1.0 :: real)
            in (True, st\<lparr>bubbles := bs',
                          score := score st + \<lfloor>real_of_int pts * multiplier\<rfloor>,
                          celebrationWord := Some targetColor\<rparr>))
         else (False, st))"

text \<open>
  The connected component the specification speaks of: the seed, and every active bubble
  of the seed's colour that neighbours a member.
\<close>

inductive_set component :: "bubble list \<Rightarrow> nat \<Rightarrow> nat set" for bs :: "bubble list" and seed :: nat where
  seed: "seed \<in> component bs seed"
| step: "i \<in> component bs seed \<Longrightarrow> j < length bs \<Longrightarrow> b_active (bs ! j) \<Longrightarrow>
         b_color (bs ! j) = b_color (bs ! seed) \<Longrightarrow> isNeighbor (bs ! i) (bs ! j) \<Longrightarrow>
         j \<in> component bs seed"

text \<open>
  The loop invariant of \<open>matchLoop\<close> with respect to the component of \<open>seed\<close>: positions on
  the stack are valid and, when of the seed's colour, in the component; the matches are
  exactly the visited members of the component, each once; every active neighbour of the
  seed's colour of a match is visited or on the stack; so is the seed.
\<close>

definition matchInv :: "bubble list \<Rightarrow> nat \<Rightarrow> nat list \<Rightarrow> string set \<Rightarrow> nat list \<Rightarrow> bool" where
  "matchInv bs seed toCheck visited matches =
     ((\<forall>i \<in> set toCheck. i < length bs)
    \<and> (\<forall>i \<in> set toCheck. b_color (bs ! i) = b_color (bs ! seed) \<longrightarrow> i \<in> component bs seed)
    \<and> set matches \<subseteq> component bs seed
    \<and> (\<forall>i \<in> component bs seed. b_id (bs ! i) \<in> visited \<longrightarrow> i \<in> set matches)
    \<and> (\<forall>i \<in> set matches. b_id (bs ! i) \<in> visited)
    \<and> (\<forall>i \<in> set matches. \<forall>j < length bs.
          b_active (bs ! j) \<and> b_color (bs ! j) = b_color (bs ! seed) \<and> isNeighbor (bs ! i) (bs ! j)
          \<longrightarrow> b_id (bs ! j) \<in> visited \<or> j \<in> set toCheck)
    \<and> (b_id (bs ! seed) \<in> visited \<or> seed \<in> set toCheck)
    \<and> distinct matches)"

text \<open>
  The end-to-end scenario of the specification: three mutually adjacent red bubbles, one
  blue bubble, and a red shot that has just been pushed next to the cluster (position 4).
  Coordinates are those of \<open>getBubblePos\<close> for a width of 1152, with \<open>ROW_HEIGHT\<close> left
  symbolic.
\<close>

definition scenarioField :: "bubble list" where
  "scenarioField =
     [\<lparr>b_id = ''0-0'', b_row = 0, b_col = 0, b_x = 36, b_y = 36, b_color = red, b_active = True\<rparr>,
      \<lparr>b_id = ''0-1'', b_row = 0, b_col = 1, b_x = 108, b_y = 36, b_color = red, b_active = True\<rparr>,
      \<lparr>b_id = ''1-0'', b_row = 1, b_col = 0, b_x = 72, b_y = 36 + ROW_HEIGHT, b_color = red, b_active = True\<rparr>,
      \<lparr>b_id = ''0-3'', b_row = 0, b_col = 3, b_x = 252, b_y = 36, b_color = blue, b_active = True\<rparr>,
      \<lparr>b_id = ''0-2-1700000000000'', b_row = 0, b_col = 2, b_x = 180, b_y = 36, b_color = red, b_active = True\<rparr>]"

text \<open>A lone green shot next to the blue bubble of a two-bubble field (position 2).\<close>

definition loneField :: "bubble list" where
  "loneField =
     [\<lparr>b_id = ''0-0'', b_row = 0, b_col = 0, b_x = 36, b_y = 36, b_color = red, b_active = True\<rparr>,
      \<lparr>b_id = ''0-3'', b_row = 0, b_col = 3, b_x = 252, b_y = 36, b_color = blue, b_active = True\<rparr>,
      \<lparr>b_id = ''0-2-1700000000000'', b_row = 0, b_col = 2, b_x = 180, b_y = 36, b_color = green, b_active = True\<rparr>]"

section \<open>Shot placement: the nearest-empty-cell snap\<close>

text \<open>The five \<open>best...\<close> variables; \<open>bestDist = None\<close> stands for \<open>Infinity\<close>.\<close>

record best =
  bestDist :: "real option"
  bestRow :: int
  bestCol :: int
  bestX :: real
  bestY :: real

text \<open>\<open>bubbles.current.some(b => b.active && b.row === r && b.col === c)\<close>\<close>

definition occupied :: "bubble list \<Rightarrow> int \<Rightarrow> int \<Rightarrow> bool" where
  "occupied bs r c = list_ex (\<lambda>b. b_active b \<and> b_row b = r \<and> b_col b = c) bs"

text \<open>The body of the inner loop at cell \<open>(r, c)\<close>.\<close>

definition snapCell :: "bubble list \<Rightarrow> real \<Rightarrow> point \<Rightarrow> int \<Rightarrow> int \<Rightarrow> best \<Rightarrow> best" where
  "snapCell bs width ballPos r c bst =
     (let pos = getBubblePos r c width
      in if occupied bs r c then bst
         else
           (let dist = sqrt ((p_x ballPos - p_x pos)\<^sup>2 + (p_y ballPos - p_y pos)\<^sup>2)
            in if (case bestDist bst of None \<Rightarrow> True | Some d \<Rightarrow> dist < d) then
                 \<lparr>bestDist = Some dist, bestRow = r, bestCol = c, bestX = p_x pos, bestY = p_y pos\<rparr>
               else bst))"

definition snapRow :: "bubble list \<Rightarrow> real \<Rightarrow> point \<Rightarrow> int \<Rightarrow> best \<Rightarrow> best" where
  "snapRow bs width ballPos r bst = fold (snapCell bs width ballPos r) [0..colsInRow r - 1] bst"

definition snap :: "bubble list \<Rightarrow> real \<Rightarrow> point \<Rightarrow> best" where
  "snap bs width ballPos =
     fold (snapRow bs width ballPos) [0..GRID_ROWS + 5 - 1]
       \<lparr>bestDist = None, bestRow = 0, bestCol = 0, bestX = 0, bestY = 0\<rparr>"

text \<open>The distance from the ball to the planar position of cell \<open>(r, c)\<close>.\<close>

definition cellDist :: "real \<Rightarrow> point \<Rightarrow> int \<Rightarrow> int \<Rightarrow> real" where
  "cellDist width ballPos r c =
     sqrt ((p_x ballPos - p_x (getBubblePos r c width))\<^sup>2 + (p_y ballPos - p_y (getBubblePos r c width))\<^sup>2)"

text \<open>
  The loop invariant of the snap over the set \<open>seen\<close> of cells scanned so far: either
  nothing was selected and every scanned cell is occupied, or the selected cell is a
  scanned, unoccupied cell at least as near as every other scanned unoccupied cell.
\<close>

definition snapInv :: "bubble list \<Rightarrow> real \<Rightarrow> point \<Rightarrow> (int \<times> int) set \<Rightarrow> best \<Rightarrow> bool" where
  "snapInv bs width ballPos seen bst =
     (case bestDist bst of
        None \<Rightarrow> (\<forall>(r, c) \<in> seen. occupied bs r c)
                \<and> bst = \<lparr>bestDist = None, bestRow = 0, bestCol = 0, bestX = 0, bestY = 0\<rparr>
      | Some d \<Rightarrow> (bestRow bst, bestCol bst) \<in> seen
                \<and> \<not> occupied bs (bestRow bst) (bestCol bst)
                \<and> d = cellDist width ballPos (bestRow bst) (bestCol bst)
                \<and> bestX bst = p_x (getBubblePos (bestRow bst) (bestCol bst) width)
                \<and> bestY bst = p_y (getBubblePos (bestRow bst) (bestCol bst) width)
                \<and> (\<forall>(r, c) \<in> seen. \<not> occupied bs r c \<longrightarrow> d \<le> cellDist width ballPos r c))"

text \<open>
  The \<open>if (collisionOccurred)\<close> block as far as the bubble field and the score go: snap,
  create the bubble with the selected colour, push it, resolve matches. \<open>now\<close> is the value
  of \<open>Date.now()\<close>.
\<close>

definition newBubble :: "best \<Rightarrow> color \<Rightarrow> int \<Rightarrow> bubble" where
  "newBubble bst selectedColor now =
     \<lparr>b_id = showInt (bestRow bst) @ ''-'' @ showInt (bestCol bst) @ ''-'' @ showInt now,
      b_row = bestRow bst,
      b_col = bestCol bst,
      b_x = bestX bst,
      b_y = bestY bst,
      b_color = selectedColor,
      b_active = True\<rparr>"

definition placeShot :: "game \<Rightarrow> real \<Rightarrow> point \<Rightarrow> color \<Rightarrow> int \<Rightarrow> game" where
  "placeShot st width ballPos selectedColor now =
     (let bst = snap (bubbles st) width ballPos;
          nb = newBubble bst selectedColor now;
          st' = st\<lparr>bubbles := bubbles st @ [nb]\<rparr>
      in snd (checkMatches st' (length (bubbles st))))"

text \<open>The invariant of the bubble field: no two active bubbles share a cell.\<close>

definition noSharedCell :: "bubble list \<Rightarrow> bool" where
  "noSharedCell bs =
     (\<forall>i < length bs. \<forall>j < length bs.
        i \<noteq> j \<and> b_active (bs ! i) \<and> b_active (bs ! j) \<longrightarrow>
        (b_row (bs ! i), b_col (bs ! i)) \<noteq> (b_row (bs ! j), b_col (bs ! j)))"

text \<open>
  A field in which every cell of rows \<open>0\<close> to \<open>GRID_ROWS + 4\<close> holds an active bubble,
  coloured so that no two neighbouring bubbles have the same colour (hence no shot that
  built it up ever completed a match). The rows below the initial grid carry the ids of
  shots.
\<close>

definition fullCell :: "real \<Rightarrow> int \<Rightarrow> int \<Rightarrow> bubble" where
  "fullCell width r c =
     \<lparr>b_id = (if r < GRID_ROWS then showInt r @ ''-'' @ showInt c
              else showInt r @ ''-'' @ showInt c @ ''-'' @ showInt (1600000000000 + 16 * r + c)),
      b_row = r,
      b_col = c,
      b_x = p_x (getBubblePos r c width),
      b_y = p_y (getBubblePos r c width),
      b_color = [red, blue, green] ! nat ((c - r div 2 - r) mod 3),
      b_active = True\<rparr>"

definition fullField :: "real \<Rightarrow> bubble list" where
  "fullField width =
     concat (map (\<lambda>r. map (\<lambda>c. fullCell width r c) [0..colsInRow r - 1]) [0..GRID_ROWS + 5 - 1])"

section \<open>The advisory service (\<open>getStrategicHint\<close>) and its local fallback\<close>

record TargetCandidate =
  t_id :: string
  t_color :: string
  t_size :: int
  t_row :: int
  t_col :: int
  pointsPerBubble :: int
  description :: string

text \<open>Values that \<open>JSON.parse\<close> can return, and \<open>undefined\<close> for an absent property.\<close>

datatype jsval =
    JUndefined
  | JNull
  | JBool bool
  | JNum real
  | JStr string
  | JArray "jsval list"
  | JObject "(string \<times> jsval) list"

text \<open>The result of \<open>Number(v)\<close>.\<close>

datatype jsnum = NaN | Num real | PosInfinity | NegInfinity

text \<open>
  The texts of the hints are Hangul literals of the source; each is named here by the place
  it comes from. \<open>MsgAimAt c\<close> is the template built from \<open>best.color\<close> in
  \<open>getBestLocalTarget\<close>, \<open>MsgUnsure\<close> its default argument, \<open>MsgGoodSpot\<close> the default for an
  accepted response without a message, \<open>MsgFromModel v\<close> the \<open>message\<close> of the response.
\<close>

datatype message =
    MsgNoApiKey
  | MsgUnsure
  | MsgAimAt string
  | MsgWrongPosition
  | MsgNotUnderstood
  | MsgDisconnected
  | MsgGoodSpot
  | MsgFromModel jsval

record StrategicHint =
  message :: message
  rationale :: jsval
  targetRow :: "jsnum option"
  targetCol :: "jsnum option"
  recommendedColor :: "string option"

text \<open>
  \<open>Array.prototype.sort\<close> with a comparator is a stable sort; it is modelled by insertion
  from the right, which keeps elements that compare equal in their original order.
\<close>

fun insertBy :: "('a \<Rightarrow> 'a \<Rightarrow> int) \<Rightarrow> 'a \<Rightarrow> 'a list \<Rightarrow> 'a list" where
  "insertBy cmp x [] = [x]"
| "insertBy cmp x (y # ys) = (if cmp x y \<le> 0 then x # y # ys else y # insertBy cmp x ys)"

definition js_sort :: "('a \<Rightarrow> 'a \<Rightarrow> int) \<Rightarrow> 'a list \<Rightarrow> 'a list" where
  "js_sort cmp xs = foldr (insertBy cmp) xs []"

text \<open>The comparator \<open>(scoreB - scoreA) || (a.row - b.row)\<close>.\<close>

definition compareTargets :: "TargetCandidate \<Rightarrow> TargetCandidate \<Rightarrow> int" where
  "compareTargets a b =
     (let scoreA = t_size a * pointsPerBubble a;
          scoreB = t_size b * pointsPerBubble b
      in if scoreB - scoreA \<noteq> 0 then scoreB - scoreA else t_row a - t_row b)"

definition getBestLocalTarget :: "TargetCandidate list \<Rightarrow> message \<Rightarrow> StrategicHint" where
  "getBestLocalTarget validTargets msg =
     (if length validTargets > 0 then
        (let best = hd (js_sort compareTargets validTargets)
         in \<lparr>message = MsgAimAt (t_color best),
             rationale = JStr ''Selected based on highest potential cluster score available locally.'',
             targetRow = Some (Num (real_of_int (t_row best))),
             targetCol = Some (Num (real_of_int (t_col best))),
             recommendedColor = Some (t_color best)\<rparr>)
      else
        \<lparr>message = msg,
         rationale = JStr ''No valid clusters found to target.'',
         targetRow = None,
         targetCol = None,
         recommendedColor = None\<rparr>)"

text \<open>
  \<open>Number(v)\<close>. The conversion of strings, arrays and objects is ECMAScript's
  \<open>StringToNumber\<close> and \<open>ToPrimitive\<close>, which are not part of the repository; it is the
  parameter \<open>conv\<close>.
\<close>

definition Number_js :: "(jsval \<Rightarrow> jsnum) \<Rightarrow> jsval \<Rightarrow> jsnum" where
  "Number_js conv v =
     (case v of
        JUndefined \<Rightarrow> NaN
      | JNull \<Rightarrow> Num 0
      | JBool b \<Rightarrow> Num (if b then 1 else 0)
      | JNum x \<Rightarrow> Num x
      | _ \<Rightarrow> conv v)"

definition isNaN :: "jsnum \<Rightarrow> bool" where
  "isNaN n = (n = NaN)"

text \<open>Truthiness, as \<open>&&\<close> and \<open>||\<close> test it.\<close>

definition truthy :: "jsval \<Rightarrow> bool" where
  "truthy v =
     (case v of
        JUndefined \<Rightarrow> False
      | JNull \<Rightarrow> False
      | JBool b \<Rightarrow> b
      | JNum x \<Rightarrow> x \<noteq> 0
      | JStr s \<Rightarrow> s \<noteq> []
      | _ \<Rightarrow> True)"

text \<open>
  Property access \<open>json.k\<close> on a parsed value that is not \<open>null\<close>: the last entry of an
  object with that key, \<open>undefined\<close> on anything else.
\<close>

definition getProp :: "jsval \<Rightarrow> string \<Rightarrow> jsval" where
  "getProp json k =
     (case json of
        JObject kvs \<Rightarrow> (case map_of (rev kvs) k of Some v \<Rightarrow> v | None \<Rightarrow> JUndefined)
      | _ \<Rightarrow> JUndefined)"

text \<open>
  \<open>String.prototype.toLowerCase\<close>. A string is held as its UTF-8 bytes. On a string of
  ASCII characters only, lower-casing maps \<open>A\<close> to \<open>Z\<close> onto \<open>a\<close> to \<open>z\<close> and leaves the rest.
  On any other string the result is ECMAScript's Unicode case mapping, which is not part
  of the repository; it is the parameter \<open>unicodeLower\<close>.
\<close>

definition isAscii :: "char \<Rightarrow> bool" where
  "isAscii ch = (of_char ch < (128 :: nat))"

definition lowerChar :: "char \<Rightarrow> char" where
  "lowerChar ch =
     (if of_char ch \<ge> (65 :: nat) \<and> of_char ch \<le> (90 :: nat) then char_of (of_char ch + (32 :: nat)) else ch)"

definition toLowerCase :: "(string \<Rightarrow> string) \<Rightarrow> string \<Rightarrow> string" where
  "toLowerCase unicodeLower s = (if list_all isAscii s then map lowerChar s else unicodeLower s)"

text \<open>
  What reaches the validation code of \<open>getStrategicHint\<close>: the request failed (outer
  \<open>catch\<close>), \<open>JSON.parse\<close> threw (inner \<open>catch\<close>), or it returned a value.
\<close>

datatype advisory = ApiError | ParseError | Parsed jsval

text \<open>
  \<open>getStrategicHint\<close> from the point where the response is known. \<open>hasAi\<close> is \<open>ai !== null\<close>.
  Reading a property of \<open>null\<close> (or \<open>undefined\<close>), and calling \<open>toLowerCase\<close> on a value
  that is not a string, throw a \<open>TypeError\<close> inside the inner \<open>try\<close>, which its \<open>catch\<close> turns
  into the fallback. \<open>conv\<close> and \<open>unicodeLower\<close> are the two built-in conversions described
  above. The \<open>debug\<close> record of the result is left out.
\<close>

definition getStrategicHint ::
  "(jsval \<Rightarrow> jsnum) \<Rightarrow> (string \<Rightarrow> string) \<Rightarrow> bool \<Rightarrow> TargetCandidate list \<Rightarrow> advisory
     \<Rightarrow> StrategicHint" where
  "getStrategicHint conv unicodeLower hasAi validTargets response =
     (if \<not> hasAi then
        \<lparr>message = MsgNoApiKey, rationale = JUndefined, targetRow = None, targetCol = None,
         recommendedColor = None\<rparr>
      else
        (case response of
           ApiError \<Rightarrow> getBestLocalTarget validTargets MsgDisconnected
         | ParseError \<Rightarrow> getBestLocalTarget validTargets MsgNotUnderstood
         | Parsed json \<Rightarrow>
             (if json = JNull \<or> json = JUndefined then getBestLocalTarget validTargets MsgNotUnderstood
              else
                (let r = Number_js conv (getProp json ''targetRow'');
                     c = Number_js conv (getProp json ''targetCol'')
                 in if \<not> isNaN r \<and> \<not> isNaN c \<and> truthy (getProp json ''recommendedColor'') then
                      (case getProp json ''recommendedColor'' of
                         JStr s \<Rightarrow>
                           \<lparr>message = (if truthy (getProp json ''message'')
                                        then MsgFromModel (getProp json ''message'') else MsgGoodSpot),
                            rationale = getProp json ''rationale'',
                            targetRow = Some r,
                            targetCol = Some c,
                            recommendedColor = Some (toLowerCase unicodeLower s)\<rparr>
                       | _ \<Rightarrow> getBestLocalTarget validTargets MsgNotUnderstood)
                    else getBestLocalTarget validTargets MsgWrongPosition))))"

text \<open>
  \<open>performAiAnalysis\<close>, the consumer of the hint: the colour it passes to
  \<open>setSelectedColor\<close>, if any.
\<close>

definition equippedColor :: "StrategicHint \<Rightarrow> string option" where
  "equippedColor hint =
     (if targetRow hint \<noteq> None \<and> targetCol hint \<noteq> None then
        (case recommendedColor hint of
           Some s \<Rightarrow> (if s \<noteq> [] then Some s else None)
         | None \<Rightarrow> None)
      else None)"

text \<open>The keys of \<open>COLOR_CONFIG\<close> as the strings the service exchanges.\<close>

fun colorKey :: "color \<Rightarrow> string" where
  "colorKey red = ''red''"
| "colorKey blue = ''blue''"
| "colorKey green = ''green''"
| "colorKey yellow = ''yellow''"
| "colorKey purple = ''purple''"
| "colorKey orange = ''orange''"

definition knownColor :: "string \<Rightarrow> bool" where
  "knownColor s = (s \<in> set (map colorKey COLOR_KEYS))"

text \<open>
  \<open>COLOR_CONFIG[key]\<close> for a key given as a string, as the drawing code reads it for the
  selected colour: \<open>None\<close> is \<open>undefined\<close>, on which reading \<open>.hex\<close> throws a \<open>TypeError\<close>.
\<close>

definition COLOR_CONFIG :: "string \<Rightarrow> color option" where
  "COLOR_CONFIG key = map_of (map (\<lambda>c. (colorKey c, c)) COLOR_KEYS) key"

section \<open>Properties of the adjacency rule\<close>

lemma js_rem_2_odd: "js_rem a 2 \<noteq> 0 \<longleftrightarrow> odd a"
proof -
  have "\<bar>a\<bar> mod 2 \<noteq> 0 \<longleftrightarrow> odd a"
    by presburger
  then show ?thesis
    by (cases "a = 0") (simp_all add: js_rem_def sgn_if)
qed

text \<open>
  C3: the hex-adjacency relation is symmetric: for all bubbles \<open>a\<close> and \<open>b\<close>, whatever
  their rows and columns, \<open>isNeighbor a b\<close> equals \<open>isNeighbor b a\<close>.
\<close>

theorem isNeighbor_symmetric: "isNeighbor a b = isNeighbor b a"
proof -
  have par: "\<bar>b_row b - b_row a\<bar> = 1 \<Longrightarrow> odd (b_row a) \<longleftrightarrow> even (b_row b)"
    by presburger
  show ?thesis
    unfolding isNeighbor_def Let_def js_rem_2_odd
    using par by (auto simp: abs_if split: if_splits)
qed

section \<open>Properties of the line-of-sight check\<close>

lemma sampleBlocked_iff:
  "sampleBlocked bs target cx cy \<longleftrightarrow>
     (\<exists>b \<in> set bs. b_active b \<and> b_id b \<noteq> b_id target \<and>
        (cx - b_x b)\<^sup>2 + (cy - b_y b)\<^sup>2 < (BUBBLE_RADIUS * 1.8)\<^sup>2)"
  by (induction bs) auto

lemma pathLoop_iff:
  "pathLoop bs target startX startY dx dy steps i \<longleftrightarrow>
     (\<forall>j. i \<le> j \<and> j < steps - 2 \<longrightarrow>
        \<not> sampleBlocked bs target (startX + dx * (real_of_int j / real_of_int steps))
             (startY + dy * (real_of_int j / real_of_int steps)))"
proof (induction bs target startX startY dx dy steps i rule: pathLoop.induct)
  case (1 bs target startX startY dx dy steps i)
  show ?case
  proof (cases "i < steps - 2")
    case False
    then show ?thesis by (subst pathLoop.simps) auto
  next
    case True
    let ?B = "\<lambda>j. sampleBlocked bs target (startX + dx * (real_of_int j / real_of_int steps))
             (startY + dy * (real_of_int j / real_of_int steps))"
    show ?thesis
    proof (cases "?B i")
      case True
      with \<open>i < steps - 2\<close> show ?thesis
        by (subst pathLoop.simps) (auto simp: Let_def)
    next
      case False
      have "pathLoop bs target startX startY dx dy steps i
             = pathLoop bs target startX startY dx dy steps (i + 1)"
        using False \<open>i < steps - 2\<close> by (subst pathLoop.simps) (simp add: Let_def)
      also have "\<dots> \<longleftrightarrow> (\<forall>j. i + 1 \<le> j \<and> j < steps - 2 \<longrightarrow> \<not> ?B j)"
        using "1.IH" [OF \<open>i < steps - 2\<close> refl refl refl] False by simp
      also have "\<dots> \<longleftrightarrow> (\<forall>j. i \<le> j \<and> j < steps - 2 \<longrightarrow> \<not> ?B j)"
      proof -
        have "\<And>j. i \<le> j \<longleftrightarrow> j = i \<or> i + 1 \<le> j" by auto
        then show ?thesis using False by metis
      qed
      finally show ?thesis .
    qed
  qed
qed

lemma midpoint_sample:
  fixes sx sy ex ey :: real and n :: int
  defines "d \<equiv> sqrt ((ex - sx) * (ex - sx) + (ey - sy) * (ey - sy))"
  assumes n: "n = \<lceil>d / 18\<rceil>" and n4: "4 \<le> n"
  shows "\<exists>i. 1 \<le> i \<and> i < n - 2 \<and>
           (sx + (ex - sx) * (real_of_int i / real_of_int n) - (sx + ex) / 2)\<^sup>2
         + (sy + (ey - sy) * (real_of_int i / real_of_int n) - (sy + ey) / 2)\<^sup>2 \<le> 324"
proof -
  define i where "i = (if n = 4 then 1 else n div 2)"
  have i1: "1 \<le> i" and i2: "i < n - 2" and i3: "\<bar>2 * i - n\<bar> \<le> 2"
    using n4 by (auto simp: i_def)
  have npos: "0 < real_of_int n" using n4 by simp
  have d0: "0 \<le> d" by (simp add: d_def)
  have "d / 18 \<le> real_of_int n" unfolding n by (rule le_of_int_ceiling)
  then have dle: "d \<le> 18 * real_of_int n" by simp
  define f where "f = real_of_int i / real_of_int n - 1 / 2"
  have f_eq: "f = real_of_int (2 * i - n) / (2 * real_of_int n)"
    using npos by (simp add: f_def field_simps)
  have "\<bar>f\<bar> = real_of_int \<bar>2 * i - n\<bar> / (2 * real_of_int n)"
    using npos by (simp add: f_eq abs_mult)
  also have "\<dots> \<le> 2 / (2 * real_of_int n)"
    using i3 npos by (intro divide_right_mono) auto
  finally have fle: "\<bar>f\<bar> \<le> 1 / real_of_int n" by simp
  have "\<bar>f\<bar> * d \<le> (1 / real_of_int n) * (18 * real_of_int n)"
    using fle dle d0 npos by (intro mult_mono) auto
  then have "\<bar>f\<bar> * d \<le> 18" using npos by simp
  moreover have "0 \<le> \<bar>f\<bar> * d" using d0 by simp
  ultimately have "(\<bar>f\<bar> * d)\<^sup>2 \<le> 18\<^sup>2" by (rule power_mono)
  then have sq: "f\<^sup>2 * d\<^sup>2 \<le> 324" by (simp add: power_mult_distrib)
  have dsq: "d\<^sup>2 = (ex - sx) * (ex - sx) + (ey - sy) * (ey - sy)"
    unfolding d_def by simp
  have ex: "sx + (ex - sx) * (real_of_int i / real_of_int n) - (sx + ex) / 2 = (ex - sx) * f"
    by (simp add: f_def field_simps)
  have ey: "sy + (ey - sy) * (real_of_int i / real_of_int n) - (sy + ey) / 2 = (ey - sy) * f"
    by (simp add: f_def field_simps)
  have "((ex - sx) * f)\<^sup>2 + ((ey - sy) * f)\<^sup>2 = f\<^sup>2 * d\<^sup>2"
    unfolding dsq by (simp add: power2_eq_square algebra_simps)
  with sq ex ey i1 i2 show ?thesis by auto
qed

lemma within_iff: "0 \<le> c \<Longrightarrow> sqrt a < c \<longleftrightarrow> a < c\<^sup>2" for a c :: real
  by (metis abs_of_nonneg real_sqrt_abs real_sqrt_less_iff)

lemma isPathClear_iff:
  "isPathClear anchor bs target \<longleftrightarrow>
     (\<forall>j. 1 \<le> j \<and> j < pathSteps anchor target - 2 \<longrightarrow>
        \<not> sampleBlocked bs target (p_x (samplePoint anchor target j)) (p_y (samplePoint anchor target j)))"
  by (simp add: isPathClear_def Let_def pathLoop_iff samplePoint_def)

text \<open>
  C8 (amended): the check visits the points \<open>samplePoint anchor target i\<close> for
  \<open>1 \<le> i < steps - 2\<close>, where \<open>steps\<close> is the distance from the anchor to the target's
  centre divided by half the bubble radius, rounded up. The path is reported clear exactly
  when no visited point lies within \<open>1.8 * BUBBLE_RADIUS\<close> of the centre of an active bubble
  whose id differs from the target's. An active blocker exactly at the midpoint of the
  segment makes the path not clear, provided the segment spans at least four steps.
\<close>

theorem isPathClear_sampling:
  "(isPathClear anchor bs target \<longleftrightarrow>
      \<not> (\<exists>i. 1 \<le> i \<and> i < pathSteps anchor target - 2 \<and>
            (\<exists>b \<in> set bs. b_active b \<and> b_id b \<noteq> b_id target \<and>
               sqrt ((p_x (samplePoint anchor target i) - b_x b)\<^sup>2
                   + (p_y (samplePoint anchor target i) - b_y b)\<^sup>2) < 1.8 * BUBBLE_RADIUS)))
   \<and> (4 \<le> pathSteps anchor target \<and> blocker \<in> set bs \<and> b_active blocker \<and>
        b_id blocker \<noteq> b_id target \<and>
        b_x blocker = (p_x anchor + b_x target) / 2 \<and>
        b_y blocker = (p_y anchor + b_y target) / 2
        \<longrightarrow> \<not> isPathClear anchor bs target)"
proof (intro conjI impI)
  have r: "(0::real) \<le> 1.8 * BUBBLE_RADIUS" by (simp add: BUBBLE_RADIUS_def)
  show "isPathClear anchor bs target \<longleftrightarrow>
      \<not> (\<exists>i. 1 \<le> i \<and> i < pathSteps anchor target - 2 \<and>
            (\<exists>b \<in> set bs. b_active b \<and> b_id b \<noteq> b_id target \<and>
               sqrt ((p_x (samplePoint anchor target i) - b_x b)\<^sup>2
                   + (p_y (samplePoint anchor target i) - b_y b)\<^sup>2) < 1.8 * BUBBLE_RADIUS))"
    unfolding isPathClear_iff sampleBlocked_iff within_iff [OF r]
    by (auto simp: mult.commute)
next
  assume a: "4 \<le> pathSteps anchor target \<and> blocker \<in> set bs \<and> b_active blocker \<and>
        b_id blocker \<noteq> b_id target \<and>
        b_x blocker = (p_x anchor + b_x target) / 2 \<and>
        b_y blocker = (p_y anchor + b_y target) / 2"
  have n: "pathSteps anchor target
           = \<lceil>sqrt ((b_x target - p_x anchor) * (b_x target - p_x anchor)
                  + (b_y target - p_y anchor) * (b_y target - p_y anchor)) / 18\<rceil>"
    by (simp add: pathSteps_def Let_def BUBBLE_RADIUS_def)
  from midpoint_sample [OF n] a
  obtain i where i: "1 \<le> i" "i < pathSteps anchor target - 2"
    and le: "(p_x anchor + (b_x target - p_x anchor) * (real_of_int i / real_of_int (pathSteps anchor target))
               - (p_x anchor + b_x target) / 2)\<^sup>2
           + (p_y anchor + (b_y target - p_y anchor) * (real_of_int i / real_of_int (pathSteps anchor target))
               - (p_y anchor + b_y target) / 2)\<^sup>2 \<le> 324"
    by blast
  from a have bx: "b_x blocker = (p_x anchor + b_x target) / 2"
    and bz: "b_y blocker = (p_y anchor + b_y target) / 2" by blast+
  have "(p_x (samplePoint anchor target i) - b_x blocker)\<^sup>2
        + (p_y (samplePoint anchor target i) - b_y blocker)\<^sup>2 \<le> 324"
    unfolding samplePoint_def Let_def point.simps bx bz using le .
  also have "(324::real) < (BUBBLE_RADIUS * 1.8)\<^sup>2"
    by (simp add: BUBBLE_RADIUS_def power2_eq_square)
  finally have "(p_x (samplePoint anchor target i) - b_x blocker)\<^sup>2
        + (p_y (samplePoint anchor target i) - b_y blocker)\<^sup>2 < (BUBBLE_RADIUS * 1.8)\<^sup>2" .
  with a have "sampleBlocked bs target (p_x (samplePoint anchor target i)) (p_y (samplePoint anchor target i))"
    unfolding sampleBlocked_iff by blast
  with i show "\<not> isPathClear anchor bs target"
    unfolding isPathClear_iff by blast
qed

lemma sqrt_sq: "0 \<le> a \<Longrightarrow> sqrt (a * a) = a" for a :: real
  by simp

theorem isPathClear_sampling_witness:
  "4 \<le> pathSteps \<lparr>p_x = 0, p_y = 0\<rparr>
          \<lparr>b_id = ''t'', b_row = 0, b_col = 2, b_x = 144, b_y = 0, b_color = red, b_active = True\<rparr>
   \<and> \<not> isPathClear \<lparr>p_x = 0, p_y = 0\<rparr>
        [\<lparr>b_id = ''m'', b_row = 0, b_col = 1, b_x = 72, b_y = 0, b_color = blue, b_active = True\<rparr>,
         \<lparr>b_id = ''t'', b_row = 0, b_col = 2, b_x = 144, b_y = 0, b_color = red, b_active = True\<rparr>]
        \<lparr>b_id = ''t'', b_row = 0, b_col = 2, b_x = 144, b_y = 0, b_color = red, b_active = True\<rparr>"
proof -
  have s: "sqrt (144 * 144 :: real) = 144" by (rule sqrt_sq) simp
  have st: "pathSteps \<lparr>p_x = 0, p_y = 0\<rparr>
          \<lparr>b_id = ''t'', b_row = 0, b_col = 2, b_x = 144, b_y = 0, b_color = red, b_active = True\<rparr> = 8"
    unfolding pathSteps_def Let_def BUBBLE_RADIUS_def by (simp only: bubble.simps point.simps diff_0_right mult_zero_left add_0_right s) simp
  show ?thesis
    using isPathClear_sampling [of "\<lparr>p_x = 0, p_y = 0\<rparr>"
        "[\<lparr>b_id = ''m'', b_row = 0, b_col = 1, b_x = 72, b_y = 0, b_color = blue, b_active = True\<rparr>,
         \<lparr>b_id = ''t'', b_row = 0, b_col = 2, b_x = 144, b_y = 0, b_color = red, b_active = True\<rparr>]"
        "\<lparr>b_id = ''t'', b_row = 0, b_col = 2, b_x = 144, b_y = 0, b_color = red, b_active = True\<rparr>"
        "\<lparr>b_id = ''m'', b_row = 0, b_col = 1, b_x = 72, b_y = 0, b_color = blue, b_active = True\<rparr>", THEN conjunct2]
    by (simp add: st)
qed

text \<open>
  C8 as stated fails for a short segment: with the target 40 units from the anchor there are
  three steps, no point is visited, and a blocker at the midpoint leaves the path clear.
\<close>

theorem isPathClear_midpoint_counterexample:
  "isPathClear \<lparr>p_x = 0, p_y = 0\<rparr>
        [\<lparr>b_id = ''m'', b_row = 0, b_col = 1, b_x = 20, b_y = 0, b_color = blue, b_active = True\<rparr>,
         \<lparr>b_id = ''t'', b_row = 0, b_col = 2, b_x = 40, b_y = 0, b_color = red, b_active = True\<rparr>]
        \<lparr>b_id = ''t'', b_row = 0, b_col = 2, b_x = 40, b_y = 0, b_color = red, b_active = True\<rparr>
   \<and> b_active \<lparr>b_id = ''m'', b_row = 0, b_col = 1, b_x = 20, b_y = 0, b_color = blue, b_active = True\<rparr>
   \<and> b_id \<lparr>b_id = ''m'', b_row = 0, b_col = 1, b_x = 20, b_y = 0, b_color = blue, b_active = True\<rparr>
       \<noteq> b_id \<lparr>b_id = ''t'', b_row = 0, b_col = 2, b_x = 40, b_y = 0, b_color = red, b_active = True\<rparr>
   \<and> b_x \<lparr>b_id = ''m'', b_row = 0, b_col = 1, b_x = 20, b_y = 0, b_color = blue, b_active = True\<rparr>
       = (p_x \<lparr>p_x = 0, p_y = 0\<rparr>
          + b_x \<lparr>b_id = ''t'', b_row = 0, b_col = 2, b_x = 40, b_y = 0, b_color = red, b_active = True\<rparr>) / 2
   \<and> b_y \<lparr>b_id = ''m'', b_row = 0, b_col = 1, b_x = 20, b_y = 0, b_color = blue, b_active = True\<rparr>
       = (p_y \<lparr>p_x = 0, p_y = 0\<rparr>
          + b_y \<lparr>b_id = ''t'', b_row = 0, b_col = 2, b_x = 40, b_y = 0, b_color = red, b_active = True\<rparr>) / 2"
proof -
  have s: "sqrt (40 * 40 :: real) = 40" by (rule sqrt_sq) simp
  have st: "pathSteps \<lparr>p_x = 0, p_y = 0\<rparr>
          \<lparr>b_id = ''t'', b_row = 0, b_col = 2, b_x = 40, b_y = 0, b_color = red, b_active = True\<rparr> = 3"
    unfolding pathSteps_def Let_def BUBBLE_RADIUS_def by (simp only: bubble.simps point.simps diff_0_right mult_zero_left add_0_right s) simp
  show ?thesis
    by (simp add: isPathClear_def Let_def st pathLoop.simps)
qed

text \<open>
  C10: when the target is at most three steps from the anchor, the loop visits no point and
  the path is reported clear whatever bubbles there are.
\<close>

theorem isPathClear_short:
  "pathSteps anchor target \<le> 3 \<Longrightarrow>
     isPathClear anchor bs target \<and> \<not> (\<exists>i. 1 \<le> i \<and> i < pathSteps anchor target - 2)"
  by (auto simp: isPathClear_iff)

theorem isPathClear_short_witness:
  "pathSteps \<lparr>p_x = 0, p_y = 0\<rparr>
          \<lparr>b_id = ''t'', b_row = 0, b_col = 2, b_x = 30, b_y = 0, b_color = red, b_active = True\<rparr> \<le> 3
   \<and> isPathClear \<lparr>p_x = 0, p_y = 0\<rparr>
        [\<lparr>b_id = ''m'', b_row = 0, b_col = 1, b_x = 15, b_y = 0, b_color = blue, b_active = True\<rparr>,
         \<lparr>b_id = ''n'', b_row = 0, b_col = 1, b_x = 10, b_y = 1, b_color = green, b_active = True\<rparr>]
        \<lparr>b_id = ''t'', b_row = 0, b_col = 2, b_x = 30, b_y = 0, b_color = red, b_active = True\<rparr>"
proof -
  have s: "sqrt (30 * 30 :: real) = 30" by (rule sqrt_sq) simp
  have st: "pathSteps \<lparr>p_x = 0, p_y = 0\<rparr>
          \<lparr>b_id = ''t'', b_row = 0, b_col = 2, b_x = 30, b_y = 0, b_color = red, b_active = True\<rparr> = 2"
    unfolding pathSteps_def Let_def BUBBLE_RADIUS_def by (simp only: bubble.simps point.simps diff_0_right mult_zero_left add_0_right s) simp
  show ?thesis
    using isPathClear_short [of "\<lparr>p_x = 0, p_y = 0\<rparr>"
          "\<lparr>b_id = ''t'', b_row = 0, b_col = 2, b_x = 30, b_y = 0, b_color = red, b_active = True\<rparr>"
        "[\<lparr>b_id = ''m'', b_row = 0, b_col = 1, b_x = 15, b_y = 0, b_color = blue, b_active = True\<rparr>,
         \<lparr>b_id = ''n'', b_row = 0, b_col = 1, b_x = 10, b_y = 1, b_color = green, b_active = True\<rparr>]"]
    by (simp add: st)
qed

section \<open>Properties of the local fallback\<close>

lemma set_insertBy: "set (insertBy cmp x ys) = insert x (set ys)"
  by (induction ys) auto

lemma js_sort_Cons: "js_sort cmp (x # xs) = insertBy cmp x (js_sort cmp xs)"
  by (simp add: js_sort_def)

lemma set_js_sort: "set (js_sort cmp xs) = set xs"
  by (induction xs) (simp_all add: js_sort_Cons set_insertBy, simp add: js_sort_def)

lemma compareTargets_le:
  "compareTargets a b \<le> 0 \<longleftrightarrow>
     t_size b * pointsPerBubble b < t_size a * pointsPerBubble a
     \<or> (t_size a * pointsPerBubble a = t_size b * pointsPerBubble b \<and> t_row a \<le> t_row b)"
  by (auto simp: compareTargets_def Let_def)

lemma hd_insertBy_min:
  assumes "\<forall>t \<in> set ys. compareTargets (hd ys) t \<le> 0"
  shows "\<forall>t \<in> set (insertBy compareTargets x ys).
           compareTargets (hd (insertBy compareTargets x ys)) t \<le> 0"
proof (cases ys)
  case Nil
  then show ?thesis by (simp add: compareTargets_le)
next
  case (Cons y ys')
  show ?thesis
  proof (cases "compareTargets x y \<le> 0")
    case True
    have "compareTargets x t \<le> 0" if "t \<in> set ys" for t
    proof -
      from assms that Cons have "compareTargets y t \<le> 0" by auto
      with True show ?thesis unfolding compareTargets_le by linarith
    qed
    then have "\<forall>t \<in> set ys. compareTargets x t \<le> 0" by blast
    moreover have "compareTargets x x \<le> 0" by (simp add: compareTargets_le)
    ultimately show ?thesis using True Cons by auto
  next
    case False
    then have "compareTargets y x \<le> 0" unfolding compareTargets_le by linarith
    with False Cons assms show ?thesis by (auto simp: set_insertBy)
  qed
qed

lemma hd_js_sort_min:
  "\<forall>t \<in> set xs. compareTargets (hd (js_sort compareTargets xs)) t \<le> 0"
proof (induction xs)
  case Nil
  then show ?case by simp
next
  case (Cons x xs)
  have "\<forall>t \<in> set (js_sort compareTargets xs). compareTargets (hd (js_sort compareTargets xs)) t \<le> 0"
    using Cons.IH by (simp add: set_js_sort)
  from hd_insertBy_min [OF this]
  show ?case by (simp add: js_sort_Cons set_insertBy set_js_sort)
qed

text \<open>
  C6: for a non-empty list of candidates the fallback returns the row, column and colour of
  a candidate whose product \<open>size * pointsPerBubble\<close> is the highest of the list, and whose
  row is the smallest among the candidates with that product.
\<close>

theorem getBestLocalTarget_best:
  assumes "validTargets \<noteq> []"
  shows "\<exists>best \<in> set validTargets.
           targetRow (getBestLocalTarget validTargets msg) = Some (Num (real_of_int (t_row best)))
         \<and> targetCol (getBestLocalTarget validTargets msg) = Some (Num (real_of_int (t_col best)))
         \<and> recommendedColor (getBestLocalTarget validTargets msg) = Some (t_color best)
         \<and> (\<forall>t \<in> set validTargets.
               t_size t * pointsPerBubble t \<le> t_size best * pointsPerBubble best)
         \<and> (\<forall>t \<in> set validTargets.
               t_size t * pointsPerBubble t = t_size best * pointsPerBubble best
               \<longrightarrow> t_row best \<le> t_row t)"
proof -
  from assms have "set (js_sort compareTargets validTargets) \<noteq> {}"
    by (simp add: set_js_sort)
  then obtain best rest where s: "js_sort compareTargets validTargets = best # rest"
    by (cases "js_sort compareTargets validTargets") auto
  then have "best \<in> set (js_sort compareTargets validTargets)" by simp
  then have mem: "best \<in> set validTargets" by (simp add: set_js_sort)
  have min: "\<forall>t \<in> set validTargets. compareTargets best t \<le> 0"
    using hd_js_sort_min [of validTargets] s by simp
  have "\<forall>t \<in> set validTargets. t_size t * pointsPerBubble t \<le> t_size best * pointsPerBubble best"
    using min unfolding compareTargets_le by force
  moreover have "\<forall>t \<in> set validTargets.
               t_size t * pointsPerBubble t = t_size best * pointsPerBubble best
               \<longrightarrow> t_row best \<le> t_row t"
    using min unfolding compareTargets_le by force
  ultimately show ?thesis
    using mem s assms by (intro bexI [of _ best]) (simp_all add: getBestLocalTarget_def Let_def)
qed

theorem getBestLocalTarget_best_witness:
  "[\<lparr>t_id = ''0-1'', t_color = ''red'', t_size = 3, t_row = 4, t_col = 1, pointsPerBubble = 100, description = ''Left''\<rparr>,
    \<lparr>t_id = ''2-5'', t_color = ''blue'', t_size = 2, t_row = 2, t_col = 5, pointsPerBubble = 150, description = ''Center''\<rparr>,
    \<lparr>t_id = ''1-9'', t_color = ''green'', t_size = 1, t_row = 1, t_col = 9, pointsPerBubble = 200, description = ''Right''\<rparr>] \<noteq> []
   \<and> targetRow (getBestLocalTarget
       [\<lparr>t_id = ''0-1'', t_color = ''red'', t_size = 3, t_row = 4, t_col = 1, pointsPerBubble = 100, description = ''Left''\<rparr>,
        \<lparr>t_id = ''2-5'', t_color = ''blue'', t_size = 2, t_row = 2, t_col = 5, pointsPerBubble = 150, description = ''Center''\<rparr>,
        \<lparr>t_id = ''1-9'', t_color = ''green'', t_size = 1, t_row = 1, t_col = 9, pointsPerBubble = 200, description = ''Right''\<rparr>]
       MsgUnsure) = Some (Num 2)
   \<and> recommendedColor (getBestLocalTarget
       [\<lparr>t_id = ''0-1'', t_color = ''red'', t_size = 3, t_row = 4, t_col = 1, pointsPerBubble = 100, description = ''Left''\<rparr>,
        \<lparr>t_id = ''2-5'', t_color = ''blue'', t_size = 2, t_row = 2, t_col = 5, pointsPerBubble = 150, description = ''Center''\<rparr>,
        \<lparr>t_id = ''1-9'', t_color = ''green'', t_size = 1, t_row = 1, t_col = 9, pointsPerBubble = 200, description = ''Right''\<rparr>]
       MsgUnsure) = Some ''blue''"
  using getBestLocalTarget_best [of
       "[\<lparr>t_id = ''0-1'', t_color = ''red'', t_size = 3, t_row = 4, t_col = 1, pointsPerBubble = 100, description = ''Left''\<rparr>,
        \<lparr>t_id = ''2-5'', t_color = ''blue'', t_size = 2, t_row = 2, t_col = 5, pointsPerBubble = 150, description = ''Center''\<rparr>,
        \<lparr>t_id = ''1-9'', t_color = ''green'', t_size = 1, t_row = 1, t_col = 9, pointsPerBubble = 200, description = ''Right''\<rparr>]"
       MsgUnsure]
  by auto


section \<open>Properties of the validation of advisory responses\<close>

text \<open>
  What the validation does. A response is accepted exactly when \<open>Number\<close> of its
  \<open>targetRow\<close> and of its \<open>targetCol\<close> are not \<open>NaN\<close> and its \<open>recommendedColor\<close> is a non-empty
  string; every other response yields the local fallback.
\<close>

lemma getStrategicHint_accepted:
  assumes "hasAi"
    and "\<not> isNaN (Number_js conv (getProp json ''targetRow''))"
    and "\<not> isNaN (Number_js conv (getProp json ''targetCol''))"
    and "getProp json ''recommendedColor'' = JStr s" and "s \<noteq> []"
  shows "targetRow (getStrategicHint conv unicodeLower hasAi validTargets (Parsed json))
           = Some (Number_js conv (getProp json ''targetRow''))"
    and "targetCol (getStrategicHint conv unicodeLower hasAi validTargets (Parsed json))
           = Some (Number_js conv (getProp json ''targetCol''))"
    and "recommendedColor (getStrategicHint conv unicodeLower hasAi validTargets (Parsed json))
           = Some (toLowerCase unicodeLower s)"
proof -
  from assms(4) have "json \<noteq> JNull" "json \<noteq> JUndefined"
    by (auto simp: getProp_def)
  with assms show "targetRow (getStrategicHint conv unicodeLower hasAi validTargets (Parsed json))
           = Some (Number_js conv (getProp json ''targetRow''))"
    and "targetCol (getStrategicHint conv unicodeLower hasAi validTargets (Parsed json))
           = Some (Number_js conv (getProp json ''targetCol''))"
    and "recommendedColor (getStrategicHint conv unicodeLower hasAi validTargets (Parsed json))
           = Some (toLowerCase unicodeLower s)"
    by (simp_all add: getStrategicHint_def Let_def truthy_def)
qed

lemma getStrategicHint_rejected:
  assumes "hasAi"
    and "isNaN (Number_js conv (getProp json ''targetRow''))
         \<or> isNaN (Number_js conv (getProp json ''targetCol''))
         \<or> \<not> (\<exists>c. getProp json ''recommendedColor'' = JStr c \<and> c \<noteq> [])"
  shows "\<exists>msg. getStrategicHint conv unicodeLower hasAi validTargets (Parsed json)
                 = getBestLocalTarget validTargets msg"
  using assms
  by (cases "getProp json ''recommendedColor''")
     (auto simp: getStrategicHint_def Let_def truthy_def)

text \<open>
  A response whose \<open>targetRow\<close> is the string \<open>abc\<close>, which \<open>Number\<close> turns into \<open>NaN\<close>, is
  rejected and the fallback is returned.
\<close>

lemma getStrategicHint_abc_rejected:
  assumes "hasAi" and "getProp json ''targetRow'' = JStr ''abc''" and "conv (JStr ''abc'') = NaN"
  shows "getStrategicHint conv unicodeLower hasAi validTargets (Parsed json)
           = getBestLocalTarget validTargets MsgWrongPosition"
proof -
  from assms(2) have "json \<noteq> JNull" "json \<noteq> JUndefined"
    by (auto simp: getProp_def)
  with assms show ?thesis
    by (simp add: getStrategicHint_def Let_def Number_js_def isNaN_def)
qed

text \<open>
  The numeric test is \<open>Number\<close> followed by \<open>isNaN\<close>, so coordinates that are not numbers
  but that \<open>Number\<close> converts pass it: a response with \<open>targetRow: null\<close> and
  \<open>targetCol: true\<close> is accepted as row 0, column 1.
\<close>

lemma getStrategicHint_null_row_accepted:
  "targetRow (getStrategicHint conv unicodeLower True validTargets
      (Parsed (JObject [(''targetRow'', JNull), (''targetCol'', JBool True),
                        (''recommendedColor'', JStr ''red'')]))) = Some (Num 0)
   \<and> targetCol (getStrategicHint conv unicodeLower True validTargets
      (Parsed (JObject [(''targetRow'', JNull), (''targetCol'', JBool True),
                        (''recommendedColor'', JStr ''red'')]))) = Some (Num 1)"
  by (simp add: getStrategicHint_def getProp_def Number_js_def isNaN_def truthy_def Let_def)

lemma lower_PINK: "toLowerCase unicodeLower ''PINK'' = ''pink''"
proof -
  have "list_all isAscii ''PINK''" by code_simp
  moreover have "map lowerChar ''PINK'' = ''pink''" by code_simp
  ultimately show ?thesis by (simp only: toLowerCase_def if_True)
qed

text \<open>
  C7 fails on the code: the validation never compares the recommended colour with the six
  keys of the colour enumeration. The response with \<open>targetRow\<close> 1, \<open>targetCol\<close> 2 and
  \<open>recommendedColor\<close> \<open>PINK\<close> is accepted instead of the fallback, the hint carries the
  colour \<open>pink\<close>, \<open>performAiAnalysis\<close> equips it, and \<open>COLOR_CONFIG\<close> has no entry for it.
\<close>

theorem getStrategicHint_accepts_unknown_color:
  "targetRow (getStrategicHint conv unicodeLower True
        [\<lparr>t_id = ''2-5'', t_color = ''blue'', t_size = 2, t_row = 2, t_col = 5, pointsPerBubble = 150, description = ''Center''\<rparr>]
        (Parsed (JObject [(''targetRow'', JNum 1), (''targetCol'', JNum 2), (''recommendedColor'', JStr ''PINK'')])))
     = Some (Num 1)
   \<and> targetCol (getStrategicHint conv unicodeLower True
        [\<lparr>t_id = ''2-5'', t_color = ''blue'', t_size = 2, t_row = 2, t_col = 5, pointsPerBubble = 150, description = ''Center''\<rparr>]
        (Parsed (JObject [(''targetRow'', JNum 1), (''targetCol'', JNum 2), (''recommendedColor'', JStr ''PINK'')])))
     = Some (Num 2)
   \<and> recommendedColor (getStrategicHint conv unicodeLower True
        [\<lparr>t_id = ''2-5'', t_color = ''blue'', t_size = 2, t_row = 2, t_col = 5, pointsPerBubble = 150, description = ''Center''\<rparr>]
        (Parsed (JObject [(''targetRow'', JNum 1), (''targetCol'', JNum 2), (''recommendedColor'', JStr ''PINK'')])))
     = Some ''pink''
   \<and> equippedColor (getStrategicHint conv unicodeLower True
        [\<lparr>t_id = ''2-5'', t_color = ''blue'', t_size = 2, t_row = 2, t_col = 5, pointsPerBubble = 150, description = ''Center''\<rparr>]
        (Parsed (JObject [(''targetRow'', JNum 1), (''targetCol'', JNum 2), (''recommendedColor'', JStr ''PINK'')])))
     = Some ''pink''
   \<and> knownColor ''pink'' = False
   \<and> COLOR_CONFIG ''pink'' = None"
  by (simp add: getStrategicHint_def getProp_def Number_js_def isNaN_def truthy_def Let_def
        lower_PINK equippedColor_def knownColor_def COLOR_CONFIG_def COLOR_KEYS_def)

section \<open>Properties of match-find\<close>

lemma component_less: "i \<in> component bs seed \<Longrightarrow> seed < length bs \<Longrightarrow> i < length bs"
  by (induction rule: component.induct) auto

lemma component_color: "i \<in> component bs seed \<Longrightarrow> b_color (bs ! i) = b_color (bs ! seed)"
  by (induction rule: component.induct) auto

lemma matchInv_init: "seed < length bs \<Longrightarrow> matchInv bs seed [seed] {} []"
  by (simp add: matchInv_def component.seed)

lemma matchInvI:
  assumes "\<And>i. i \<in> set toCheck \<Longrightarrow> i < length bs"
    and "\<And>i. i \<in> set toCheck \<Longrightarrow> b_color (bs ! i) = b_color (bs ! seed) \<Longrightarrow> i \<in> component bs seed"
    and "\<And>i. i \<in> set matches \<Longrightarrow> i \<in> component bs seed"
    and "\<And>i. i \<in> component bs seed \<Longrightarrow> b_id (bs ! i) \<in> visited \<Longrightarrow> i \<in> set matches"
    and "\<And>i. i \<in> set matches \<Longrightarrow> b_id (bs ! i) \<in> visited"
    and "\<And>i j. i \<in> set matches \<Longrightarrow> j < length bs \<Longrightarrow> b_active (bs ! j) \<Longrightarrow>
           b_color (bs ! j) = b_color (bs ! seed) \<Longrightarrow> isNeighbor (bs ! i) (bs ! j) \<Longrightarrow>
           b_id (bs ! j) \<in> visited \<or> j \<in> set toCheck"
    and "b_id (bs ! seed) \<in> visited \<or> seed \<in> set toCheck"
    and "distinct matches"
  shows "matchInv bs seed toCheck visited matches"
  unfolding matchInv_def using assms by blast

lemma matchInvD:
  assumes "matchInv bs seed toCheck visited matches"
  shows "\<And>i. i \<in> set toCheck \<Longrightarrow> i < length bs"
    and "\<And>i. i \<in> set toCheck \<Longrightarrow> b_color (bs ! i) = b_color (bs ! seed) \<Longrightarrow> i \<in> component bs seed"
    and "\<And>i. i \<in> set matches \<Longrightarrow> i \<in> component bs seed"
    and "\<And>i. i \<in> component bs seed \<Longrightarrow> b_id (bs ! i) \<in> visited \<Longrightarrow> i \<in> set matches"
    and "\<And>i. i \<in> set matches \<Longrightarrow> b_id (bs ! i) \<in> visited"
    and "\<And>i j. i \<in> set matches \<Longrightarrow> j < length bs \<Longrightarrow> b_active (bs ! j) \<Longrightarrow>
           b_color (bs ! j) = b_color (bs ! seed) \<Longrightarrow> isNeighbor (bs ! i) (bs ! j) \<Longrightarrow>
           b_id (bs ! j) \<in> visited \<or> j \<in> set toCheck"
    and "b_id (bs ! seed) \<in> visited \<or> seed \<in> set toCheck"
    and "distinct matches"
  using assms unfolding matchInv_def by blast+

lemma matchInv_done:
  assumes inv: "matchInv bs seed [] visited matches"
  shows "set matches = component bs seed"
proof
  note D = matchInvD [OF inv]
  show "set matches \<subseteq> component bs seed"
    using D(3) by blast
  show "component bs seed \<subseteq> set matches"
  proof
    fix i assume "i \<in> component bs seed"
    then show "i \<in> set matches"
    proof (induction rule: component.induct)
      case seed
      from D(7) have "b_id (bs ! seed) \<in> visited" by simp
      with component.seed show ?case by (rule D(4))
    next
      case (step i j)
      from step have c: "j \<in> component bs seed" by (auto intro: component.step)
      from D(6) [OF step.IH step.hyps(2-5)] have "b_id (bs ! j) \<in> visited" by simp
      with c show ?case by (rule D(4))
    qed
  qed
qed

lemma matchInv_skip:
  assumes inv: "matchInv bs seed (current # toCheck) visited matches"
    and v: "b_id (bs ! current) \<in> visited"
  shows "matchInv bs seed toCheck visited matches"
proof (rule matchInvI)
  note D = matchInvD [OF inv]
  show "i < length bs" if "i \<in> set toCheck" for i using D(1) [of i] that by simp
  show "i \<in> component bs seed" if "i \<in> set toCheck" "b_color (bs ! i) = b_color (bs ! seed)" for i
    using D(2) [of i] that by simp
  show "i \<in> component bs seed" if "i \<in> set matches" for i using D(3) that .
  show "i \<in> set matches" if "i \<in> component bs seed" "b_id (bs ! i) \<in> visited" for i
    using D(4) that .
  show "b_id (bs ! i) \<in> visited" if "i \<in> set matches" for i using D(5) that .
  show "b_id (bs ! j) \<in> visited \<or> j \<in> set toCheck"
    if "i \<in> set matches" "j < length bs" "b_active (bs ! j)"
       "b_color (bs ! j) = b_color (bs ! seed)" "isNeighbor (bs ! i) (bs ! j)" for i j
    using D(6) [OF that] v by auto
  show "b_id (bs ! seed) \<in> visited \<or> seed \<in> set toCheck" using D(7) v by auto
  show "distinct matches" using D(8) .
qed

lemma same_id_same_index:
  assumes "distinct (map b_id bs)" "i < length bs" "j < length bs" "b_id (bs ! i) = b_id (bs ! j)"
  shows "i = j"
proof -
  from assms(2-4) have "map b_id bs ! i = map b_id bs ! j" by simp
  with nth_eq_iff_index_eq [of "map b_id bs" i j] assms(1-3) show ?thesis by simp
qed

lemma matchInv_other:
  assumes inv: "matchInv bs seed (current # toCheck) visited matches"
    and d: "distinct (map b_id bs)" and s: "seed < length bs"
    and nv: "b_id (bs ! current) \<notin> visited"
    and col: "b_color (bs ! current) \<noteq> b_color (bs ! seed)"
  shows "matchInv bs seed toCheck (insert (b_id (bs ! current)) visited) matches"
proof (rule matchInvI)
  note D = matchInvD [OF inv]
  have cur: "current < length bs" using D(1) by simp
  show "i < length bs" if "i \<in> set toCheck" for i using D(1) [of i] that by simp
  show "i \<in> component bs seed" if "i \<in> set toCheck" "b_color (bs ! i) = b_color (bs ! seed)" for i
    using D(2) [of i] that by simp
  show "i \<in> component bs seed" if "i \<in> set matches" for i using D(3) that .
  show "i \<in> set matches"
    if c: "i \<in> component bs seed" and v: "b_id (bs ! i) \<in> insert (b_id (bs ! current)) visited" for i
  proof (cases "b_id (bs ! i) = b_id (bs ! current)")
    case True
    have "i = current" by (rule same_id_same_index [OF d component_less [OF c s] cur True])
    with col component_color [OF c] show ?thesis by simp
  next
    case False
    with v have "b_id (bs ! i) \<in> visited" by simp
    with c show ?thesis by (rule D(4))
  qed
  show "b_id (bs ! i) \<in> insert (b_id (bs ! current)) visited" if "i \<in> set matches" for i
    using D(5) that by simp
  show "b_id (bs ! j) \<in> insert (b_id (bs ! current)) visited \<or> j \<in> set toCheck"
    if "i \<in> set matches" "j < length bs" "b_active (bs ! j)"
       "b_color (bs ! j) = b_color (bs ! seed)" "isNeighbor (bs ! i) (bs ! j)" for i j
    using D(6) [OF that] by auto
  show "b_id (bs ! seed) \<in> insert (b_id (bs ! current)) visited \<or> seed \<in> set toCheck"
    using D(7) by auto
  show "distinct matches" using D(8) .
qed

lemma matchInv_match:
  assumes inv: "matchInv bs seed (current # toCheck) visited matches"
    and d: "distinct (map b_id bs)" and s: "seed < length bs"
    and nv: "b_id (bs ! current) \<notin> visited"
    and col: "b_color (bs ! current) = b_color (bs ! seed)"
    and nbs: "neighbors = filter (\<lambda>j. b_active (bs ! j) \<and> b_id (bs ! j) \<notin> insert (b_id (bs ! current)) visited
                              \<and> isNeighbor (bs ! current) (bs ! j)) [0..<length bs]"
  shows "matchInv bs seed (rev neighbors @ toCheck)
           (insert (b_id (bs ! current)) visited) (matches @ [current])"
proof (rule matchInvI)
  note D = matchInvD [OF inv]
  have cur: "current < length bs" using D(1) by simp
  have curc: "current \<in> component bs seed" using D(2) col by simp
  have nb: "j \<in> set neighbors \<longleftrightarrow> j < length bs \<and> b_active (bs ! j)
              \<and> b_id (bs ! j) \<notin> insert (b_id (bs ! current)) visited \<and> isNeighbor (bs ! current) (bs ! j)" for j
    unfolding nbs by auto
  show "i < length bs" if "i \<in> set (rev neighbors @ toCheck)" for i
    using D(1) [of i] that nb [of i] by auto
  show "i \<in> component bs seed"
    if i: "i \<in> set (rev neighbors @ toCheck)" and c: "b_color (bs ! i) = b_color (bs ! seed)" for i
  proof (cases "i \<in> set toCheck")
    case True
    with D(2) [of i] c show ?thesis by simp
  next
    case False
    with i have "i \<in> set neighbors" by simp
    then have h: "i < length bs" "b_active (bs ! i)" "isNeighbor (bs ! current) (bs ! i)"
      unfolding nb by blast+
    show ?thesis by (rule component.step [OF curc h(1) h(2) c h(3)])
  qed
  show "i \<in> component bs seed" if "i \<in> set (matches @ [current])" for i
    using D(3) [of i] curc that by auto
  show "i \<in> set (matches @ [current])"
    if c: "i \<in> component bs seed" and v: "b_id (bs ! i) \<in> insert (b_id (bs ! current)) visited" for i
  proof (cases "b_id (bs ! i) = b_id (bs ! current)")
    case True
    have "i = current" by (rule same_id_same_index [OF d component_less [OF c s] cur True])
    then show ?thesis by simp
  next
    case False
    with v have "b_id (bs ! i) \<in> visited" by simp
    with c have "i \<in> set matches" by (rule D(4))
    then show ?thesis by simp
  qed
  show "b_id (bs ! i) \<in> insert (b_id (bs ! current)) visited" if "i \<in> set (matches @ [current])" for i
    using D(5) [of i] that by auto
  show "b_id (bs ! j) \<in> insert (b_id (bs ! current)) visited \<or> j \<in> set (rev neighbors @ toCheck)"
    if i: "i \<in> set (matches @ [current])" and j: "j < length bs" "b_active (bs ! j)"
       "b_color (bs ! j) = b_color (bs ! seed)" "isNeighbor (bs ! i) (bs ! j)" for i j
  proof (cases "i = current")
    case True
    with j show ?thesis using nb [of j] by auto
  next
    case False
    with i have "i \<in> set matches" by simp
    from D(6) [OF this j] show ?thesis by auto
  qed
  show "b_id (bs ! seed) \<in> insert (b_id (bs ! current)) visited \<or> seed \<in> set (rev neighbors @ toCheck)"
    using D(7) by auto
  show "distinct (matches @ [current])"
    using D(8) D(5) [of current] nv by auto
qed

lemma matchLoop_correct:
  "distinct (map b_id bs) \<Longrightarrow> seed < length bs \<Longrightarrow> targetColor = b_color (bs ! seed) \<Longrightarrow>
   matchInv bs seed toCheck visited matches \<Longrightarrow>
     set (matchLoop bs targetColor toCheck visited matches) = component bs seed
     \<and> distinct (matchLoop bs targetColor toCheck visited matches)"
proof (induction bs targetColor toCheck visited matches rule: matchLoop.induct)
  case (1 bs targetColor visited matches)
  from matchInv_done [OF "1.prems"(4)] matchInvD(8) [OF "1.prems"(4)]
  show ?case by simp
next
  case (2 bs targetColor current toCheck visited matches)
  note d = "2.prems"(1) and s = "2.prems"(2) and tc = "2.prems"(3) and inv = "2.prems"(4)
  show ?case
  proof (cases "b_id (bs ! current) \<in> visited")
    case True
    from "2.IH"(1) [OF True d s tc matchInv_skip [OF inv True]] True
    show ?thesis by simp
  next
    case False
    show ?thesis
    proof (cases "b_color (bs ! current) = b_color (bs ! seed)")
      case True
      from True tc have c: "b_color (bs ! current) = targetColor" by simp
      from "2.IH"(2) [OF False refl c refl d s tc matchInv_match [OF inv d s False True refl]] False c
      show ?thesis by (simp add: Let_def)
    next
      case neq: False
      from neq tc have c: "b_color (bs ! current) \<noteq> targetColor" by simp
      from "2.IH"(3) [OF False refl c d s tc matchInv_other [OF inv d s False neq]] False c
      show ?thesis by (simp add: Let_def)
    qed
  qed
qed

lemma matchFind_correct:
  assumes "distinct (map b_id bs)" and "seed < length bs"
  shows "set (matchFind bs seed) = component bs seed" and "distinct (matchFind bs seed)"
  using matchLoop_correct [OF assms refl matchInv_init [OF assms(2)]]
  by (simp_all add: matchFind_def)


lemma scenario_matchFind: "matchFind scenarioField 4 = [4, 1, 2, 0]"
  by (simp add: matchFind_def scenarioField_def isNeighbor_def js_rem_def Let_def)

lemma lone_matchFind: "matchFind loneField 2 = [2]"
  by (simp add: matchFind_def loneField_def isNeighbor_def js_rem_def Let_def)


lemma component_active: "i \<in> component bs seed \<Longrightarrow> i = seed \<or> b_active (bs ! i)"
  by (induction rule: component.induct) auto

lemma scenario_ids: "distinct (map b_id scenarioField)"
  by (simp add: scenarioField_def)

lemma lone_ids: "distinct (map b_id loneField)"
  by (simp add: loneField_def)

text \<open>
  C4: when the ids of the bubbles are pairwise different, match-find returns exactly the
  connected component of the seed (the seed and the active bubbles of its colour reachable
  through the adjacency rule), each member once, and every returned bubble has the seed's
  colour.
\<close>

theorem matchFind_component:
  assumes "distinct (map b_id bs)" and "seed < length bs"
  shows "set (matchFind bs seed) = component bs seed
       \<and> distinct (matchFind bs seed)
       \<and> (\<forall>i \<in> set (matchFind bs seed).
            i < length bs \<and> b_color (bs ! i) = b_color (bs ! seed) \<and> (i = seed \<or> b_active (bs ! i)))"
proof (intro conjI ballI)
  show "set (matchFind bs seed) = component bs seed"
    by (rule matchFind_correct(1) [OF assms])
  show "distinct (matchFind bs seed)"
    by (rule matchFind_correct(2) [OF assms])
  fix i assume "i \<in> set (matchFind bs seed)"
  then have c: "i \<in> component bs seed"
    using matchFind_correct(1) [OF assms] by simp
  show "i < length bs" by (rule component_less [OF c assms(2)])
  show "b_color (bs ! i) = b_color (bs ! seed)" by (rule component_color [OF c])
  show "i = seed \<or> b_active (bs ! i)" by (rule component_active [OF c])
qed

theorem matchFind_component_witness:
  "distinct (map b_id scenarioField) \<and> 4 < length scenarioField
   \<and> matchFind scenarioField 4 = [4, 1, 2, 0]
   \<and> component scenarioField 4 = {0, 1, 2, 4}"
proof -
  have len: "4 < length scenarioField" by (simp add: scenarioField_def)
  from matchFind_component [OF scenario_ids len]
  have "set (matchFind scenarioField 4) = component scenarioField 4" by (rule conjunct1)
  then have e: "component scenarioField 4 = set [4, 1, 2, 0]"
    by (simp only: scenario_matchFind)
  have "set [4, 1, 2, 0 :: nat] = {0, 1, 2, 4}" by auto
  with e have "component scenarioField 4 = {0, 1, 2, 4}" by (rule trans)
  with scenario_ids len scenario_matchFind show ?thesis by (intro conjI)
qed

section \<open>Properties of match resolution\<close>

lemma fold_popBubble:
  "fold (popBubble basePoints) ms (bs, p) = (bs', p') \<Longrightarrow>
     length bs' = length bs \<and> p' = p + basePoints * int (length ms)
     \<and> (\<forall>i < length bs. bs' ! i = (if i \<in> set ms then (bs ! i)\<lparr>b_active := False\<rparr> else bs ! i))"
proof (induction ms arbitrary: bs p)
  case Nil
  then show ?case by simp
next
  case (Cons m ms)
  have step: "popBubble basePoints m (bs, p) = (bs[m := (bs ! m)\<lparr>b_active := False\<rparr>], p + basePoints)"
    by (simp add: popBubble_def)
  from Cons.prems
  have "fold (popBubble basePoints) ms (bs[m := (bs ! m)\<lparr>b_active := False\<rparr>], p + basePoints) = (bs', p')"
    by (simp add: step)
  from Cons.IH [OF this]
  have l: "length bs' = length bs" and p: "p' = p + basePoints + basePoints * int (length ms)"
    and n: "\<And>i. i < length bs \<Longrightarrow> bs' ! i =
              (if i \<in> set ms then (bs[m := (bs ! m)\<lparr>b_active := False\<rparr>] ! i)\<lparr>b_active := False\<rparr>
               else bs[m := (bs ! m)\<lparr>b_active := False\<rparr>] ! i)"
    by simp_all
  have "bs' ! i = (if i \<in> set (m # ms) then (bs ! i)\<lparr>b_active := False\<rparr> else bs ! i)"
    if "i < length bs" for i
  proof (cases "i = m")
    case True
    with n [OF that] that show ?thesis by simp
  next
    case False
    with n [OF that] that show ?thesis by simp
  qed
  with l p show ?case by (simp add: algebra_simps)
qed

lemma floor_bonus: "\<lfloor>real_of_int (points c * n) * 1.5\<rfloor> = points c div 2 * 3 * n"
proof -
  have "real_of_int (points c * n) * 1.5 = real_of_int (points c div 2 * 3 * n)"
    by (cases c) simp_all
  then show ?thesis by (simp only: floor_of_int)
qed

lemma points_half: "real_of_int (points c div 2 * 3 * n) = real_of_int n * real_of_int (points c) * 1.5"
  by (cases c) simp_all

lemma matchFind_length:
  assumes "distinct (map b_id bs)" and "seed < length bs"
  shows "length (matchFind bs seed) = card (component bs seed)"
  using matchFind_correct [OF assms] distinct_card by metis

text \<open>
  C1: when the ids are pairwise different and the component of the newly placed bubble has
  at least three members, match resolution reports a match, every member of the component
  is inactive afterwards, and the score grows by exactly the size of the component times
  the base points of the colour times the multiplier, which is 1.5 for more than three
  members and 1 for exactly three.
\<close>

theorem checkMatches_resolves:
  assumes "distinct (map b_id (bubbles st))" and "seed < length (bubbles st)"
    and "3 \<le> card (component (bubbles st) seed)"
  shows "fst (checkMatches st seed)
       \<and> length (bubbles (snd (checkMatches st seed))) = length (bubbles st)
       \<and> (\<forall>i \<in> component (bubbles st) seed. \<not> b_active (bubbles (snd (checkMatches st seed)) ! i))
       \<and> real_of_int (score (snd (checkMatches st seed)) - score st)
           = real (card (component (bubbles st) seed))
             * real_of_int (points (b_color (bubbles st ! seed)))
             * (if card (component (bubbles st) seed) > 3 then 1.5 else 1.0)"
proof -
  let ?ms = "matchFind (bubbles st) seed"
  let ?c = "b_color (bubbles st ! seed)"
  have len: "length ?ms = card (component (bubbles st) seed)"
    by (rule matchFind_length [OF assms(1,2)])
  have mem: "set ?ms = component (bubbles st) seed"
    by (rule matchFind_correct(1) [OF assms(1,2)])
  obtain bs' pts where f: "fold (popBubble (points ?c)) ?ms (bubbles st, 0) = (bs', pts)"
    by (cases "fold (popBubble (points ?c)) ?ms (bubbles st, 0)")
  from fold_popBubble [OF f]
  have l: "length bs' = length (bubbles st)" and p: "pts = points ?c * int (length ?ms)"
    and n: "\<forall>i < length (bubbles st).
              bs' ! i = (if i \<in> set ?ms then (bubbles st ! i)\<lparr>b_active := False\<rparr> else bubbles st ! i)"
    by simp_all
  have res: "checkMatches st seed
        = (True, st\<lparr>bubbles := bs',
                      score := score st + \<lfloor>real_of_int pts * (if length ?ms > 3 then 1.5 else 1.0)\<rfloor>,
                      celebrationWord := Some ?c\<rparr>)"
    using assms(3) len f by (simp add: checkMatches_def Let_def)
  have dead: "\<not> b_active (bs' ! i)" if "i \<in> component (bubbles st) seed" for i
    using n that mem component_less [OF that assms(2)] by simp
  have sc: "real_of_int \<lfloor>real_of_int pts * (if length ?ms > 3 then 1.5 else 1.0)\<rfloor>
          = real (length ?ms) * real_of_int (points ?c) * (if length ?ms > 3 then 1.5 else 1.0)"
  proof (cases "length ?ms > 3")
    case True
    then show ?thesis
      unfolding p using floor_bonus [of ?c "int (length ?ms)"] points_half [of ?c "int (length ?ms)"]
      by simp
  next
    case False
    then show ?thesis unfolding p by simp
  qed
  show ?thesis
    unfolding res using l dead sc len by simp
qed

theorem checkMatches_resolves_witness:
  "distinct (map b_id scenarioField) \<and> 4 < length scenarioField
   \<and> 3 \<le> card (component scenarioField 4)
   \<and> score (snd (checkMatches \<lparr>bubbles = scenarioField, score = 0, celebrationWord = None\<rparr> 4)) = 600
   \<and> map b_active (bubbles (snd (checkMatches \<lparr>bubbles = scenarioField, score = 0, celebrationWord = None\<rparr> 4)))
       = [False, False, False, True, False]"
proof -
  have len: "4 < length scenarioField" by (simp add: scenarioField_def)
  have "set (matchFind scenarioField 4) = component scenarioField 4"
    by (rule matchFind_correct(1) [OF scenario_ids len])
  then have e: "component scenarioField 4 = set [4, 1, 2, 0]"
    by (simp only: scenario_matchFind)
  have "set [4, 1, 2, 0 :: nat] = {0, 1, 2, 4}" by auto
  with e have c: "component scenarioField 4 = {0, 1, 2, 4}" by (rule trans)
  have r: "snd (checkMatches \<lparr>bubbles = scenarioField, score = 0, celebrationWord = None\<rparr> 4)
      = \<lparr>bubbles = (map (\<lambda>b. b\<lparr>b_active := b_color b = blue\<rparr>) scenarioField), score = 600, celebrationWord = Some red\<rparr>"
    by (simp add: checkMatches_def scenario_matchFind Let_def popBubble_def)
       (simp add: scenarioField_def)
  show ?thesis
    using checkMatches_resolves [of "\<lparr>bubbles = scenarioField, score = 0, celebrationWord = None\<rparr>" 4]
      scenario_ids c
    by (simp add: r) (simp add: scenarioField_def)
qed

text \<open>
  C5: when the ids are pairwise different and the component of the newly placed bubble has
  fewer than three members, match resolution reports no match and returns the state as it
  was: bubbles, score and celebration word are unchanged.
\<close>

theorem checkMatches_no_match:
  assumes "distinct (map b_id (bubbles st))" and "seed < length (bubbles st)"
    and "card (component (bubbles st) seed) < 3"
  shows "checkMatches st seed = (False, st)"
  using assms(3) matchFind_length [OF assms(1,2)]
  by (simp add: checkMatches_def Let_def)

theorem checkMatches_no_match_witness:
  "distinct (map b_id loneField) \<and> 2 < length loneField
   \<and> card (component loneField 2) < 3
   \<and> checkMatches \<lparr>bubbles = loneField, score = 250, celebrationWord = None\<rparr> 2
       = (False, \<lparr>bubbles = loneField, score = 250, celebrationWord = None\<rparr>)"
proof -
  have len: "2 < length loneField" by (simp add: loneField_def)
  have "set (matchFind loneField 2) = component loneField 2"
    by (rule matchFind_correct(1) [OF lone_ids len])
  then have e: "component loneField 2 = set [2]"
    by (simp only: lone_matchFind)
  have "set [2 :: nat] = {2}" by simp
  with e have c: "component loneField 2 = {2}" by (rule trans)
  show ?thesis
    using checkMatches_no_match [of "\<lparr>bubbles = loneField, score = 250, celebrationWord = None\<rparr>" 2]
      lone_ids c
    by (simp add: loneField_def)
qed

section \<open>Properties of the nearest-empty-cell snap\<close>

lemma colsInRow_cases: "colsInRow r = 15 \<or> colsInRow r = 16"
  by (simp add: colsInRow_def GRID_COLS_def)

lemma snapCell_occupied: "occupied bs r c \<Longrightarrow> snapCell bs width ballPos r c bst = bst"
  by (simp add: snapCell_def)

lemma snapRow_occupied:
  "(\<forall>c \<in> set cs. occupied bs r c) \<Longrightarrow> fold (snapCell bs width ballPos r) cs bst = bst"
  by (induction cs) (simp_all add: snapCell_occupied)

lemma snapRows_occupied:
  "(\<forall>r \<in> set rs. \<forall>c \<in> {0..colsInRow r - 1}. occupied bs r c) \<Longrightarrow>
     fold (snapRow bs width ballPos) rs bst = bst"
  by (induction rs) (simp_all add: snapRow_def snapRow_occupied)

lemma snap_all_occupied:
  assumes "\<forall>r \<in> {0..GRID_ROWS + 5 - 1}. \<forall>c \<in> {0..colsInRow r - 1}. occupied bs r c"
  shows "snap bs width ballPos = \<lparr>bestDist = None, bestRow = 0, bestCol = 0, bestX = 0, bestY = 0\<rparr>"
  unfolding snap_def using assms by (intro snapRows_occupied) simp

lemma set_fullField:
  "set (fullField width)
     = (\<Union>r \<in> {0..GRID_ROWS + 5 - 1}. fullCell width r ` {0..colsInRow r - 1})"
  by (simp add: fullField_def)

lemma fullCell_in_fullField:
  assumes "0 \<le> r" "r \<le> GRID_ROWS + 5 - 1" "0 \<le> c" "c \<le> colsInRow r - 1"
  shows "fullCell width r c \<in> set (fullField width)"
proof -
  from assms(3,4) have "fullCell width r c \<in> fullCell width r ` {0..colsInRow r - 1}"
    by (intro imageI) simp
  moreover from assms(1,2) have "r \<in> {0..GRID_ROWS + 5 - 1}" by simp
  ultimately show ?thesis unfolding set_fullField by (rule UN_I [rotated])
qed

lemma in_fullField:
  assumes "b \<in> set (fullField width)"
  shows "\<exists>r c. b = fullCell width r c \<and> 0 \<le> r \<and> r \<le> GRID_ROWS + 5 - 1 \<and> 0 \<le> c \<and> c \<le> colsInRow r - 1"
proof -
  from assms obtain r where r: "r \<in> {0..GRID_ROWS + 5 - 1}"
    and "b \<in> fullCell width r ` {0..colsInRow r - 1}"
    unfolding set_fullField by (rule UN_E)
  then obtain c where "c \<in> {0..colsInRow r - 1}" "b = fullCell width r c" by (elim imageE)
  with r have "b = fullCell width r c \<and> 0 \<le> r \<and> r \<le> GRID_ROWS + 5 - 1 \<and> 0 \<le> c \<and> c \<le> colsInRow r - 1"
    by simp
  then show ?thesis by (intro exI)
qed

lemma fullField_occupied:
  assumes "0 \<le> r" "r \<le> GRID_ROWS + 5 - 1" "0 \<le> c" "c \<le> colsInRow r - 1"
  shows "occupied (fullField width) r c"
  unfolding occupied_def list_ex_iff
  using fullCell_in_fullField [OF assms, of width]
  by (intro bexI [of _ "fullCell width r c"]) (simp_all add: fullCell_def)

lemma snap_fullField:
  "snap (fullField width) width ballPos
     = \<lparr>bestDist = None, bestRow = 0, bestCol = 0, bestX = 0, bestY = 0\<rparr>"
  by (rule snap_all_occupied) (simp add: fullField_occupied)

text \<open>
  C2 fails when no cell of rows \<open>0\<close> to \<open>GRID_ROWS + 4\<close> is free: every cell is skipped, the
  \<open>best...\<close> variables keep their initial values, and the snap selects cell \<open>(0, 0)\<close>, which
  an active bubble occupies, with the planar position \<open>(0, 0)\<close>, which is no cell's position.
\<close>

theorem snap_full_field_occupied:
  "snap (fullField 1200) 1200 \<lparr>p_x = 636, p_y = 720\<rparr>
     = \<lparr>bestDist = None, bestRow = 0, bestCol = 0, bestX = 0, bestY = 0\<rparr>
   \<and> occupied (fullField 1200) 0 0
   \<and> p_x (getBubblePos 0 0 1200) = 60"
  by (simp add: snap_fullField fullField_occupied GRID_ROWS_def colsInRow_def GRID_COLS_def
        js_rem_def getBubblePos_def BUBBLE_RADIUS_def)


section \<open>The invariant of the bubble field\<close>

lemma matchLoop_other_colors:
  "\<forall>i \<in> set toCheck. b_color (bs ! i) \<noteq> targetColor \<Longrightarrow>
     matchLoop bs targetColor toCheck visited matches = matches"
  by (induction toCheck arbitrary: visited) (simp_all add: Let_def)

lemma matchFind_alone:
  assumes "\<forall>j < length bs. b_active (bs ! j) \<and> isNeighbor (bs ! seed) (bs ! j)
             \<longrightarrow> b_color (bs ! j) \<noteq> b_color (bs ! seed)"
  shows "matchFind bs seed = [seed]"
proof -
  let ?nb = "filter (\<lambda>j. b_active (bs ! j) \<and> b_id (bs ! j) \<notin> {b_id (bs ! seed)}
                          \<and> isNeighbor (bs ! seed) (bs ! j)) [0..<length bs]"
  have "\<forall>i \<in> set (rev ?nb @ []). b_color (bs ! i) \<noteq> b_color (bs ! seed)"
    using assms by simp
  from matchLoop_other_colors [OF this]
  show ?thesis by (simp add: matchFind_def Let_def)
qed

lemma checkMatches_alone:
  assumes "\<forall>j < length (bubbles st). b_active (bubbles st ! j) \<and> isNeighbor (bubbles st ! seed) (bubbles st ! j)
             \<longrightarrow> b_color (bubbles st ! j) \<noteq> b_color (bubbles st ! seed)"
  shows "checkMatches st seed = (False, st)"
  by (simp add: checkMatches_def Let_def matchFind_alone [OF assms])

lemma noSharedCell_distinct:
  assumes "distinct (map (\<lambda>b. (b_row b, b_col b)) bs)"
  shows "noSharedCell bs"
  unfolding noSharedCell_def
proof (intro allI impI)
  fix i j assume i: "i < length bs" and j: "j < length bs"
    and h: "i \<noteq> j \<and> b_active (bs ! i) \<and> b_active (bs ! j)"
  have "(map (\<lambda>b. (b_row b, b_col b)) bs ! i = map (\<lambda>b. (b_row b, b_col b)) bs ! j) = (i = j)"
    by (rule nth_eq_iff_index_eq [OF assms]) (simp_all add: i j)
  with h have "map (\<lambda>b. (b_row b, b_col b)) bs ! i \<noteq> map (\<lambda>b. (b_row b, b_col b)) bs ! j"
    by blast
  with i j show "(b_row (bs ! i), b_col (bs ! i)) \<noteq> (b_row (bs ! j), b_col (bs ! j))"
    by simp
qed

lemma noSharedCellD:
  assumes "noSharedCell bs" "i < length bs" "j < length bs" "i \<noteq> j"
    "b_active (bs ! i)" "b_active (bs ! j)" "b_row (bs ! i) = b_row (bs ! j)"
  shows "b_col (bs ! i) \<noteq> b_col (bs ! j)"
proof -
  from assms(1-3) have "i \<noteq> j \<and> b_active (bs ! i) \<and> b_active (bs ! j) \<longrightarrow>
        (b_row (bs ! i), b_col (bs ! i)) \<noteq> (b_row (bs ! j), b_col (bs ! j))"
    unfolding noSharedCell_def by blast
  with assms(4-7) show ?thesis by simp
qed

lemma fullField_cells:
  "map (\<lambda>b. (b_row b, b_col b)) (fullField width)
     = concat (map (\<lambda>r. map (\<lambda>c. (r, c)) [0..colsInRow r - 1]) [0..GRID_ROWS + 5 - 1])"
  by (simp add: fullField_def map_concat comp_def fullCell_def)

lemma distinct_cells:
  "distinct (concat (map (\<lambda>r. map (\<lambda>c. (r, c)) [0..colsInRow r - 1]) [0..GRID_ROWS + 5 - 1]))"
proof (rule distinct_concat)
  have "inj_on (\<lambda>r. map (\<lambda>c. (r, c)) [0..colsInRow r - 1]) (set [0..GRID_ROWS + 5 - 1])"
  proof (rule inj_onI)
    fix r r' :: int
    assume "map (\<lambda>c. (r, c)) [0..colsInRow r - 1] = map (\<lambda>c. (r', c)) [0..colsInRow r' - 1]"
    then have "set (map (\<lambda>c. (r, c)) [0..colsInRow r - 1]) = set (map (\<lambda>c. (r', c)) [0..colsInRow r' - 1])"
      by simp
    moreover have "(r, 0) \<in> set (map (\<lambda>c. (r, c)) [0..colsInRow r - 1])"
      using colsInRow_cases [of r] by auto
    ultimately have "(r, 0) \<in> set (map (\<lambda>c. (r', c)) [0..colsInRow r' - 1])" by simp
    then show "r = r'" by auto
  qed
  then show "distinct (map (\<lambda>r. map (\<lambda>c. (r, c)) [0..colsInRow r - 1]) [0..GRID_ROWS + 5 - 1])"
    by (simp add: distinct_map)
next
  fix ys assume "ys \<in> set (map (\<lambda>r. map (\<lambda>c. (r, c)) [0..colsInRow r - 1]) [0..GRID_ROWS + 5 - 1])"
  then show "distinct ys" by (auto simp: distinct_map inj_on_def)
next
  fix ys zs
  assume "ys \<in> set (map (\<lambda>r. map (\<lambda>c. (r, c)) [0..colsInRow r - 1]) [0..GRID_ROWS + 5 - 1])"
    and "zs \<in> set (map (\<lambda>r. map (\<lambda>c. (r, c)) [0..colsInRow r - 1]) [0..GRID_ROWS + 5 - 1])"
    and "ys \<noteq> zs"
  then show "set ys \<inter> set zs = {}" by auto
qed

lemma fullField_noSharedCell: "noSharedCell (fullField width)"
  by (rule noSharedCell_distinct) (simp only: fullField_cells distinct_cells)

lemma fullField_shot_alone:
  assumes j: "j < length (fullField width @ [newBubble \<lparr>bestDist = None, bestRow = 0, bestCol = 0, bestX = 0, bestY = 0\<rparr> red now])"
    and n: "isNeighbor (newBubble \<lparr>bestDist = None, bestRow = 0, bestCol = 0, bestX = 0, bestY = 0\<rparr> red now)
              ((fullField width @ [newBubble \<lparr>bestDist = None, bestRow = 0, bestCol = 0, bestX = 0, bestY = 0\<rparr> red now]) ! j)"
  shows "b_color ((fullField width @ [newBubble \<lparr>bestDist = None, bestRow = 0, bestCol = 0, bestX = 0, bestY = 0\<rparr> red now]) ! j) \<noteq> red"
proof (cases "j < length (fullField width)")
  case True
  then have "fullField width ! j \<in> set (fullField width)" by simp
  from in_fullField [OF this] obtain r c where
    b: "fullField width ! j = fullCell width r c" and r: "0 \<le> r" and c: "0 \<le> c" by blast
  from n True b have "isNeighbor (newBubble \<lparr>bestDist = None, bestRow = 0, bestCol = 0, bestX = 0, bestY = 0\<rparr> red now)
      (fullCell width r c)" by (simp add: nth_append)
  with r c have "(r = 0 \<and> c = 1) \<or> (r = 1 \<and> c = 0)"
    by (auto simp: isNeighbor_def newBubble_def fullCell_def js_rem_def Let_def split: if_splits)
  then have "b_color (fullCell width r c) \<noteq> red"
    by (auto simp: fullCell_def)
  with True b show ?thesis by (simp add: nth_append)
next
  case False
  with j have "j = length (fullField width)" by simp
  with n show ?thesis by (simp add: isNeighbor_def newBubble_def)
qed

lemma placeShot_fullField:
  "placeShot \<lparr>bubbles = fullField width, score = s, celebrationWord = w\<rparr> width ballPos red now
     = \<lparr>bubbles = fullField width @ [newBubble \<lparr>bestDist = None, bestRow = 0, bestCol = 0, bestX = 0, bestY = 0\<rparr> red now],
        score = s, celebrationWord = w\<rparr>"
proof -
  let ?nb = "newBubble \<lparr>bestDist = None, bestRow = 0, bestCol = 0, bestX = 0, bestY = 0\<rparr> red now"
  let ?st = "\<lparr>bubbles = fullField width @ [?nb], score = s, celebrationWord = w\<rparr>"
  have seed: "bubbles ?st ! length (fullField width) = ?nb" by simp
  have col: "b_color ?nb = red" by (simp add: newBubble_def)
  have "\<forall>j < length (bubbles ?st). b_active (bubbles ?st ! j)
            \<and> isNeighbor (bubbles ?st ! length (fullField width)) (bubbles ?st ! j)
          \<longrightarrow> b_color (bubbles ?st ! j) \<noteq> b_color (bubbles ?st ! length (fullField width))"
    unfolding seed col using fullField_shot_alone [of _ width now] by simp
  from checkMatches_alone [OF this]
  show ?thesis by (simp add: placeShot_def snap_fullField Let_def)
qed

text \<open>
  C9 fails at the same full field: the invariant holds before the shot, the snap falls
  back to cell \<open>(0, 0)\<close>, the shot finds no neighbour of its colour, and afterwards two
  active bubbles share cell \<open>(0, 0)\<close>.
\<close>

theorem placeShot_full_field_breaks_invariant:
  "noSharedCell (fullField 1200)
   \<and> \<not> noSharedCell (bubbles (placeShot \<lparr>bubbles = fullField 1200, score = 0, celebrationWord = None\<rparr>
                                 1200 \<lparr>p_x = 636, p_y = 720\<rparr> red 1700000000000))"
proof
  show "noSharedCell (fullField 1200)" by (rule fullField_noSharedCell)
next
  let ?nb = "newBubble \<lparr>bestDist = None, bestRow = 0, bestCol = 0, bestX = 0, bestY = 0\<rparr> red 1700000000000"
  let ?bs = "fullField 1200 @ [?nb]"
  have "fullCell 1200 0 0 \<in> set (fullField 1200)"
    by (rule fullCell_in_fullField) (simp_all add: GRID_ROWS_def colsInRow_def GRID_COLS_def js_rem_def)
  then obtain i where i: "i < length (fullField 1200)" and b: "fullField 1200 ! i = fullCell 1200 0 0"
    by (auto simp: in_set_conv_nth)
  have "\<not> noSharedCell ?bs"
  proof
    assume inv: "noSharedCell ?bs"
    have "b_col (?bs ! i) \<noteq> b_col (?bs ! length (fullField 1200))"
      using i b by (intro noSharedCellD [OF inv]) (simp_all add: nth_append fullCell_def newBubble_def)
    with i b show False
      by (simp add: nth_append fullCell_def newBubble_def)
  qed
  then show "\<not> noSharedCell (bubbles (placeShot \<lparr>bubbles = fullField 1200, score = 0, celebrationWord = None\<rparr>
                                 1200 \<lparr>p_x = 636, p_y = 720\<rparr> red 1700000000000))"
    by (simp add: placeShot_fullField)
qed

text \<open>The two bubbles that share a cell after the shot, spelled out.\<close>

theorem placeShot_full_field_shared_cell:
  "\<exists>i j. i < length (bubbles (placeShot \<lparr>bubbles = fullField 1200, score = 0, celebrationWord = None\<rparr>
                                 1200 \<lparr>p_x = 636, p_y = 720\<rparr> red 1700000000000))
       \<and> j < length (bubbles (placeShot \<lparr>bubbles = fullField 1200, score = 0, celebrationWord = None\<rparr>
                                 1200 \<lparr>p_x = 636, p_y = 720\<rparr> red 1700000000000))
       \<and> i \<noteq> j
       \<and> b_active (bubbles (placeShot \<lparr>bubbles = fullField 1200, score = 0, celebrationWord = None\<rparr>
                                 1200 \<lparr>p_x = 636, p_y = 720\<rparr> red 1700000000000) ! i)
       \<and> b_active (bubbles (placeShot \<lparr>bubbles = fullField 1200, score = 0, celebrationWord = None\<rparr>
                                 1200 \<lparr>p_x = 636, p_y = 720\<rparr> red 1700000000000) ! j)
       \<and> (b_row (bubbles (placeShot \<lparr>bubbles = fullField 1200, score = 0, celebrationWord = None\<rparr>
                                 1200 \<lparr>p_x = 636, p_y = 720\<rparr> red 1700000000000) ! i),
          b_col (bubbles (placeShot \<lparr>bubbles = fullField 1200, score = 0, celebrationWord = None\<rparr>
                                 1200 \<lparr>p_x = 636, p_y = 720\<rparr> red 1700000000000) ! i))
        = (b_row (bubbles (placeShot \<lparr>bubbles = fullField 1200, score = 0, celebrationWord = None\<rparr>
                                 1200 \<lparr>p_x = 636, p_y = 720\<rparr> red 1700000000000) ! j),
           b_col (bubbles (placeShot \<lparr>bubbles = fullField 1200, score = 0, celebrationWord = None\<rparr>
                                 1200 \<lparr>p_x = 636, p_y = 720\<rparr> red 1700000000000) ! j))"
  using placeShot_full_field_breaks_invariant
  unfolding noSharedCell_def by blast

section \<open>The snap on a field with a free cell\<close>

lemma snapInv_init:
  "snapInv bs width ballPos {} \<lparr>bestDist = None, bestRow = 0, bestCol = 0, bestX = 0, bestY = 0\<rparr>"
  by (simp add: snapInv_def)

lemma snapCell_inv:
  assumes "snapInv bs width ballPos seen bst"
  shows "snapInv bs width ballPos (insert (r, c) seen) (snapCell bs width ballPos r c bst)"
proof (cases "occupied bs r c")
  case True
  with assms show ?thesis
    by (auto simp: snapInv_def snapCell_def split: option.splits)
next
  case False
  show ?thesis
  proof (cases "bestDist bst")
    case None
    with assms False show ?thesis
      by (auto simp: snapInv_def snapCell_def Let_def cellDist_def)
  next
    case (Some d)
    show ?thesis
    proof (cases "cellDist width ballPos r c < d")
      case True
      with assms False Some show ?thesis
        by (auto simp: snapInv_def snapCell_def Let_def cellDist_def)
    next
      case nl: False
      with assms False Some show ?thesis
        by (auto simp: snapInv_def snapCell_def Let_def cellDist_def)
    qed
  qed
qed

lemma snapInv_Some:
  assumes "snapInv bs width ballPos seen bst" and "bestDist bst = Some d"
  shows "(bestRow bst, bestCol bst) \<in> seen"
    and "\<not> occupied bs (bestRow bst) (bestCol bst)"
    and "d = cellDist width ballPos (bestRow bst) (bestCol bst)"
    and "bestX bst = p_x (getBubblePos (bestRow bst) (bestCol bst) width)"
    and "bestY bst = p_y (getBubblePos (bestRow bst) (bestCol bst) width)"
    and "\<And>r c. (r, c) \<in> seen \<Longrightarrow> \<not> occupied bs r c \<Longrightarrow> d \<le> cellDist width ballPos r c"
  using assms unfolding snapInv_def by auto

lemma snapInv_None:
  assumes "snapInv bs width ballPos seen bst" and "bestDist bst = None"
  shows "\<And>r c. (r, c) \<in> seen \<Longrightarrow> occupied bs r c"
  using assms unfolding snapInv_def by auto

lemma snapRow_inv:
  "snapInv bs width ballPos seen bst \<Longrightarrow>
     snapInv bs width ballPos (seen \<union> {r} \<times> set cs) (fold (snapCell bs width ballPos r) cs bst)"
proof (induction cs arbitrary: seen bst)
  case Nil
  then show ?case by simp
next
  case (Cons c cs)
  from Cons.IH [OF snapCell_inv [OF Cons.prems, of r c]]
  show ?case by simp
qed


lemma snapRows_inv:
  "snapInv bs width ballPos seen bst \<Longrightarrow>
     snapInv bs width ballPos (seen \<union> (\<Union>r \<in> set rs. {r} \<times> {0..colsInRow r - 1}))
       (fold (snapRow bs width ballPos) rs bst)"
proof (induction rs arbitrary: seen bst)
  case Nil
  then show ?case by simp
next
  case (Cons r rs)
  have "snapInv bs width ballPos (seen \<union> {r} \<times> {0..colsInRow r - 1}) (snapRow bs width ballPos r bst)"
    using snapRow_inv [OF Cons.prems, of r "[0..colsInRow r - 1]"] by (simp add: snapRow_def)
  from Cons.IH [OF this] show ?case by (simp add: Un_assoc)
qed

lemma snap_inv:
  "snapInv bs width ballPos (\<Union>r \<in> {0..GRID_ROWS + 5 - 1}. {r} \<times> {0..colsInRow r - 1}) (snap bs width ballPos)"
  using snapRows_inv [OF snapInv_init, of bs width ballPos "[0..GRID_ROWS + 5 - 1]"]
  by (simp add: snap_def)

text \<open>
  The snap on a field with a free cell: whenever some cell of rows \<open>0\<close> to \<open>GRID_ROWS + 4\<close>
  is not occupied, the selected cell lies in those rows, is not occupied, carries the
  position of \<open>getBubblePos\<close>, and no unoccupied cell of those rows is nearer to the ball.
\<close>

lemma snap_nearest_free:
  assumes "0 \<le> r0" "r0 \<le> GRID_ROWS + 5 - 1" "0 \<le> c0" "c0 \<le> colsInRow r0 - 1"
    and "\<not> occupied bs r0 c0"
  shows "0 \<le> bestRow (snap bs width ballPos) \<and> bestRow (snap bs width ballPos) \<le> GRID_ROWS + 5 - 1
       \<and> 0 \<le> bestCol (snap bs width ballPos)
       \<and> bestCol (snap bs width ballPos) \<le> colsInRow (bestRow (snap bs width ballPos)) - 1
       \<and> \<not> occupied bs (bestRow (snap bs width ballPos)) (bestCol (snap bs width ballPos))
       \<and> bestX (snap bs width ballPos)
           = p_x (getBubblePos (bestRow (snap bs width ballPos)) (bestCol (snap bs width ballPos)) width)
       \<and> bestY (snap bs width ballPos)
           = p_y (getBubblePos (bestRow (snap bs width ballPos)) (bestCol (snap bs width ballPos)) width)
       \<and> (\<forall>r c. 0 \<le> r \<and> r \<le> GRID_ROWS + 5 - 1 \<and> 0 \<le> c \<and> c \<le> colsInRow r - 1 \<and> \<not> occupied bs r c
             \<longrightarrow> cellDist width ballPos (bestRow (snap bs width ballPos)) (bestCol (snap bs width ballPos))
                   \<le> cellDist width ballPos r c)"
proof -
  let ?S = "\<Union>r \<in> {0..GRID_ROWS + 5 - 1}. {r} \<times> {0..colsInRow r - 1}"
  let ?b = "snap bs width ballPos"
  have inv: "snapInv bs width ballPos ?S ?b" by (rule snap_inv)
  have mem: "(r, c) \<in> ?S \<longleftrightarrow> 0 \<le> r \<and> r \<le> GRID_ROWS + 5 - 1 \<and> 0 \<le> c \<and> c \<le> colsInRow r - 1" for r c
    by auto
  have free: "(r0, c0) \<in> ?S" using assms(1-4) unfolding mem by simp
  obtain d where d: "bestDist ?b = Some d"
  proof (cases "bestDist ?b")
    case None
    from snapInv_None [OF inv None free] assms(5) show ?thesis by simp
  next
    case (Some d)
    then show ?thesis by (rule that)
  qed
  note D = snapInv_Some [OF inv d]
  note 1 = D(1) and 2 = D(2) and 3 = D(3) and 4 = D(4) and 5 = D(5)
  have 7: "cellDist width ballPos (bestRow ?b) (bestCol ?b) \<le> cellDist width ballPos r c"
    if "0 \<le> r \<and> r \<le> GRID_ROWS + 5 - 1 \<and> 0 \<le> c \<and> c \<le> colsInRow r - 1 \<and> \<not> occupied bs r c" for r c
  proof -
    from that have "(r, c) \<in> ?S" unfolding mem by simp
    from D(6) [OF this] that show ?thesis unfolding 3 by blast
  qed
  from 1 have 8: "0 \<le> bestRow ?b \<and> bestRow ?b \<le> GRID_ROWS + 5 - 1 \<and> 0 \<le> bestCol ?b
       \<and> bestCol ?b \<le> colsInRow (bestRow ?b) - 1" unfolding mem .
  from 8 2 4 5 7 show ?thesis by blast
qed


section \<open>Where the invariant does hold\<close>

lemma distinct_rows:
  "distinct rs \<Longrightarrow> (\<forall>r \<in> set rs. distinct (f r) \<and> (\<forall>p \<in> set (f r). fst p = r)) \<Longrightarrow>
     distinct (concat (map f rs))"
proof (induction rs)
  case Nil
  then show ?case by simp
next
  case (Cons r rs)
  then have "distinct (concat (map f rs))" by simp
  moreover have "distinct (f r)" using Cons.prems by simp
  moreover have "set (f r) \<inter> set (concat (map f rs)) = {}"
  proof (rule ccontr)
    assume "set (f r) \<inter> set (concat (map f rs)) \<noteq> {}"
    then obtain p where p: "p \<in> set (f r)" and "p \<in> set (concat (map f rs))" by blast
    then obtain r' where r': "r' \<in> set rs" and "p \<in> set (f r')" by auto
    with Cons.prems(2) p have "fst p = r" "fst p = r'" by auto
    with r' Cons.prems(1) show False by simp
  qed
  ultimately show ?case by simp
qed

lemma initRow_cells:
  "concat (map (\<lambda>c. map (\<lambda>b. (b_row b, b_col b)) (initCell spawnDraw colorDraw width r c)) cs)
     = map (Pair r) (filter (\<lambda>c. spawnDraw r c > 0.15) cs)"
  by (induction cs) (simp_all add: initCell_def Let_def)

text \<open>After grid initialisation no two bubbles share a cell, whatever the random draws.\<close>

lemma initGrid_noSharedCell: "noSharedCell (initGrid spawnDraw colorDraw width)"
proof (rule noSharedCell_distinct)
  have "map (\<lambda>b. (b_row b, b_col b)) (initGrid spawnDraw colorDraw width)
      = concat (map (\<lambda>r. map (Pair r) (filter (\<lambda>c. spawnDraw r c > 0.15) [0..colsInRow r - 1]))
                    [0..GRID_ROWS - 1])"
    by (simp add: initGrid_def map_concat comp_def initRow_cells)
  moreover have "distinct (concat (map (\<lambda>r. map (Pair r) (filter (\<lambda>c. spawnDraw r c > 0.15) [0..colsInRow r - 1]))
                    [0..GRID_ROWS - 1]))"
    by (rule distinct_rows) (auto simp: distinct_map inj_on_def)
  ultimately show "distinct (map (\<lambda>b. (b_row b, b_col b)) (initGrid spawnDraw colorDraw width))"
    by simp
qed

lemma noSharedCell_deactivate:
  assumes inv: "noSharedCell bs" and len: "length bs' = length bs"
    and same: "\<And>i. i < length bs \<Longrightarrow>
                 b_row (bs' ! i) = b_row (bs ! i) \<and> b_col (bs' ! i) = b_col (bs ! i)
                 \<and> (b_active (bs' ! i) \<longrightarrow> b_active (bs ! i))"
  shows "noSharedCell bs'"
  unfolding noSharedCell_def
proof (intro allI impI)
  fix i j assume i: "i < length bs'" and j: "j < length bs'"
    and h: "i \<noteq> j \<and> b_active (bs' ! i) \<and> b_active (bs' ! j)"
  from i j len have i': "i < length bs" and j': "j < length bs" by simp_all
  from h same [OF i'] same [OF j'] have a: "b_active (bs ! i)" "b_active (bs ! j)" by blast+
  show "(b_row (bs' ! i), b_col (bs' ! i)) \<noteq> (b_row (bs' ! j), b_col (bs' ! j))"
  proof
    assume "(b_row (bs' ! i), b_col (bs' ! i)) = (b_row (bs' ! j), b_col (bs' ! j))"
    with same [OF i'] same [OF j'] have "b_row (bs ! i) = b_row (bs ! j)" "b_col (bs ! i) = b_col (bs ! j)"
      by simp_all
    with noSharedCellD [OF inv i' j' _ a] h show False by blast
  qed
qed

lemma checkMatches_bubbles:
  "length (bubbles (snd (checkMatches st seed))) = length (bubbles st)
   \<and> (\<forall>i < length (bubbles st).
        bubbles (snd (checkMatches st seed)) ! i = bubbles st ! i
        \<or> bubbles (snd (checkMatches st seed)) ! i = (bubbles st ! i)\<lparr>b_active := False\<rparr>)"
proof (cases "length (matchFind (bubbles st) seed) \<ge> 3")
  case False
  then show ?thesis by (simp add: checkMatches_def Let_def)
next
  case True
  let ?c = "b_color (bubbles st ! seed)"
  let ?ms = "matchFind (bubbles st) seed"
  obtain bs' pts where f: "fold (popBubble (points ?c)) ?ms (bubbles st, 0) = (bs', pts)"
    by (cases "fold (popBubble (points ?c)) ?ms (bubbles st, 0)")
  from fold_popBubble [OF f] True f show ?thesis
    by (simp add: checkMatches_def Let_def)
qed

text \<open>Match resolution keeps the invariant: it only deactivates bubbles.\<close>

lemma checkMatches_noSharedCell:
  assumes "noSharedCell (bubbles st)"
  shows "noSharedCell (bubbles (snd (checkMatches st seed)))"
proof (rule noSharedCell_deactivate [OF assms])
  show "length (bubbles (snd (checkMatches st seed))) = length (bubbles st)"
    using checkMatches_bubbles [of st seed] by blast
next
  fix i assume "i < length (bubbles st)"
  with checkMatches_bubbles [of st seed]
  have "bubbles (snd (checkMatches st seed)) ! i = bubbles st ! i
        \<or> bubbles (snd (checkMatches st seed)) ! i = (bubbles st ! i)\<lparr>b_active := False\<rparr>"
    by blast
  then show "b_row (bubbles (snd (checkMatches st seed)) ! i) = b_row (bubbles st ! i)
      \<and> b_col (bubbles (snd (checkMatches st seed)) ! i) = b_col (bubbles st ! i)
      \<and> (b_active (bubbles (snd (checkMatches st seed)) ! i) \<longrightarrow> b_active (bubbles st ! i))"
    by auto
qed

lemma noSharedCell_snoc:
  assumes inv: "noSharedCell bs" and free: "\<not> occupied bs (b_row nb) (b_col nb)"
  shows "noSharedCell (bs @ [nb])"
  unfolding noSharedCell_def
proof (intro allI impI)
  fix i j assume i: "i < length (bs @ [nb])" and j: "j < length (bs @ [nb])"
    and h: "i \<noteq> j \<and> b_active ((bs @ [nb]) ! i) \<and> b_active ((bs @ [nb]) ! j)"
  have clash: False
    if k: "k < length bs" and a: "b_active (bs ! k)"
      and e: "(b_row (bs ! k), b_col (bs ! k)) = (b_row nb, b_col nb)" for k
  proof -
    from k have "bs ! k \<in> set bs" by simp
    with a e have "occupied bs (b_row nb) (b_col nb)"
      unfolding occupied_def list_ex_iff by auto
    with free show False by simp
  qed
  show "(b_row ((bs @ [nb]) ! i), b_col ((bs @ [nb]) ! i))
        \<noteq> (b_row ((bs @ [nb]) ! j), b_col ((bs @ [nb]) ! j))"
  proof (cases "i < length bs"; cases "j < length bs")
    assume ij: "i < length bs" "j < length bs"
    with h have "b_active (bs ! i)" "b_active (bs ! j)" "i \<noteq> j" by (simp_all add: nth_append)
    with noSharedCellD [OF inv ij(1) ij(2)] ij show ?thesis by (auto simp: nth_append)
  next
    assume ij: "i < length bs" "\<not> j < length bs"
    with j have "j = length bs" by simp
    with ij h clash [of i] show ?thesis by (auto simp: nth_append)
  next
    assume ij: "\<not> i < length bs" "j < length bs"
    with i have "i = length bs" by simp
    with ij h clash [of j] show ?thesis by (auto simp: nth_append)
  next
    assume ij: "\<not> i < length bs" "\<not> j < length bs"
    with i j h show ?thesis by simp
  qed
qed

text \<open>Shot placement keeps the invariant as long as the snap has a free cell to choose.\<close>

lemma placeShot_noSharedCell:
  assumes inv: "noSharedCell (bubbles st)"
    and cell: "0 \<le> r0" "r0 \<le> GRID_ROWS + 5 - 1" "0 \<le> c0" "c0 \<le> colsInRow r0 - 1"
    and free: "\<not> occupied (bubbles st) r0 c0"
  shows "noSharedCell (bubbles (placeShot st width ballPos selectedColor now))"
proof -
  let ?nb = "newBubble (snap (bubbles st) width ballPos) selectedColor now"
  from snap_nearest_free [OF cell free, of width ballPos]
  have "\<not> occupied (bubbles st) (b_row ?nb) (b_col ?nb)"
    by (simp add: newBubble_def)
  from noSharedCell_snoc [OF inv this]
  have "noSharedCell (bubbles (st\<lparr>bubbles := bubbles st @ [?nb]\<rparr>))" by simp
  from checkMatches_noSharedCell [OF this]
  show ?thesis by (simp add: placeShot_def Let_def)
qed

section \<open>The colouring of the full field\<close>

text \<open>In the full field no two neighbouring bubbles have the same colour.\<close>

lemma fullCell_colouring:
  assumes "isNeighbor (fullCell width r c) (fullCell width r' c')"
  shows "b_color (fullCell width r c) \<noteq> b_color (fullCell width r' c')"
proof -
  have idx: "[red, blue, green] ! nat (k mod 3) = [red, blue, green] ! nat (k' mod 3) \<longleftrightarrow> k mod 3 = k' mod 3"
    for k k' :: int
  proof -
    have "k mod 3 = 0 \<or> k mod 3 = 1 \<or> k mod 3 = 2" "k' mod 3 = 0 \<or> k' mod 3 = 1 \<or> k' mod 3 = 2"
      by presburger+
    then show ?thesis by auto
  qed
  have nb: "isNeighbor (fullCell width r c) (fullCell width r' c') \<longleftrightarrow>
      (if \<bar>r' - r\<bar> > 1 then False
       else if r' - r = 0 then \<bar>c' - c\<bar> = 1
       else if odd r then c' - c = 0 \<or> c' - c = 1
       else c' - c = -1 \<or> c' - c = 0)"
    unfolding isNeighbor_def Let_def js_rem_2_odd by (simp add: fullCell_def)
  have "(c - r div 2 - r) mod 3 \<noteq> (c' - r' div 2 - r') mod 3"
  proof (cases "r' = r")
    case True
    with assms have "\<bar>c' - c\<bar> = 1" unfolding nb by simp
    with True show ?thesis by presburger
  next
    case False
    with assms have d: "r' = r + 1 \<or> r' = r - 1" unfolding nb by (auto split: if_splits)
    show ?thesis
    proof (cases "odd r")
      case True
      then obtain q where q: "r = 2 * q + 1" by (auto elim: oddE)
      from assms False True have "c' = c \<or> c' = c + 1" unfolding nb by (auto split: if_splits)
      moreover have "(2 * q + 1) div 2 = q" "(2 * q + 1 + 1) div 2 = q + 1" "(2 * q + 1 - 1) div 2 = q"
        by simp_all
      ultimately show ?thesis using d unfolding q by (elim disjE; simp; presburger)
    next
      case ev: False
      then obtain q where q: "r = 2 * q" by (auto elim: evenE)
      from assms False ev have "c' = c - 1 \<or> c' = c" unfolding nb by (auto split: if_splits)
      moreover have "(2 * q) div 2 = q" "(2 * q + 1) div 2 = q" "(2 * q - 1) div 2 = q - 1"
        by simp_all
      ultimately show ?thesis using d unfolding q by (elim disjE; simp; presburger)
    qed
  qed
  then show ?thesis by (simp add: fullCell_def idx)
qed

end
